theory Spec2Isabelle
  imports Complex_Main "HOL-Library.Word"
begin

unbundle bit_operations_syntax

section \<open>The receiver driver (zed\_rover.c)\<close>

type_synonym u8 = "8 word"
type_synonym u16 = "16 word"
type_synonym u32 = "32 word"

subsection \<open>Floating point\<close>

text \<open>
  The position record holds C \<open>double\<close> and \<open>float\<close> fields. Their values are modelled as
  reals, and every rounding the C arithmetic performs is made explicit through the two
  rounding operators of an \<open>fpu\<close>: \<open>fl64\<close> rounds a real to a \<open>double\<close>, \<open>fl32\<close> to a
  \<open>float\<close>. The operators are a parameter of the decoder; what is known about them is
  stated as a hypothesis where a property depends on it.
\<close>

record fpu =
  fl64 :: "real \<Rightarrow> real"
  fl32 :: "real \<Rightarrow> real"

text \<open>The arithmetic without rounding error, used to run the model on concrete inputs.\<close>

definition exact_fpu :: fpu where
  "exact_fpu = \<lparr>fl64 = (\<lambda>x. x), fl32 = (\<lambda>x. x)\<rparr>"

subsection \<open>Position record (zed\_position\_t)\<close>

record zed_position =
  year :: u16
  month :: u8
  day :: u8
  hour :: u8
  min_utc :: u8
  sec :: u8
  fix_type :: u8
  carr_soln :: u8
  num_sv :: u8
  latitude :: real
  longitude :: real
  altitude_msl :: real
  h_acc :: real
  v_acc :: real
  valid :: bool

subsection \<open>Checksum\<close>

text \<open>
  \<open>ubx_checksum\<close>: both accumulators are \<open>uint8_t\<close>, so the additions wrap modulo 256.
\<close>

definition ubx_checksum :: "u8 list \<Rightarrow> u8 \<times> u8" where
  "ubx_checksum data =
     fold (\<lambda>b (ck_a, ck_b). (ck_a + b, ck_b + (ck_a + b))) data (0, 0)"

subsection \<open>Bytes available (zed\_rover\_available)\<close>

text \<open>
  The argument is the outcome of the I2C register read: \<open>None\<close> when the transaction does
  not return \<open>ESP_OK\<close>, otherwise the two bytes read from registers 0xFD and 0xFE.
\<close>

definition zed_rover_available :: "(u8 \<times> u8) option \<Rightarrow> int" where
  "zed_rover_available ret =
     (case ret of
        None \<Rightarrow> - 1
      | Some (len_h, len_l) \<Rightarrow>
          (let available = push_bit 8 (uint len_h) OR uint len_l
           in if available = 0xFFFF then 0 else available))"

subsection \<open>Raw read (zed\_rover\_read)\<close>

text \<open>
  \<open>zed_rover_read\<close> asks for the available count again and then transfers
  \<open>min available max_len\<close> bytes from the data register. The second argument is the outcome
  of that transfer: \<open>None\<close> on an I2C error, otherwise the byte the device delivers at each
  position of the transfer. The result is the return value and the bytes stored in the
  caller's buffer.
\<close>

definition zed_rover_read ::
  "(u8 \<times> u8) option \<Rightarrow> (nat \<Rightarrow> u8) option \<Rightarrow> nat \<Rightarrow> int \<times> u8 list" where
  "zed_rover_read len_ret data_ret max_len =
     (let available = zed_rover_available len_ret
      in if available \<le> 0 then (available, [])
         else (let to_read = (if nat available < max_len then nat available else max_len)
               in case data_ret of
                    None \<Rightarrow> (- 1, [])
                  | Some dev \<Rightarrow> (int to_read, map dev [0..<to_read])))"

subsection \<open>Decoding a NAV-PVT payload\<close>

text \<open>
  The C expressions \<open>p[k] | (p[k+1] << 8) | (p[k+2] << 16) | (p[k+3] << 24)\<close> are
  evaluated in 32-bit \<open>int\<close> after integer promotion; the result is stored in an
  \<open>int32_t\<close> (read with \<open>sint\<close>) or a \<open>uint32_t\<close> (read with \<open>unat\<close>).
\<close>

definition ubx_u16 :: "u8 \<Rightarrow> u8 \<Rightarrow> u16" where
  "ubx_u16 b0 b1 = ucast b0 OR push_bit 8 (ucast b1)"

definition ubx_u32 :: "u8 list \<Rightarrow> nat \<Rightarrow> u32" where
  "ubx_u32 p k =
     ucast (p ! k) OR push_bit 8 (ucast (p ! (k + 1)))
       OR push_bit 16 (ucast (p ! (k + 2))) OR push_bit 24 (ucast (p ! (k + 3)))"

text \<open>
  \<open>p\<close> is the buffer from the first payload byte on. \<open>lon_raw * 1e-7\<close> multiplies the
  exactly converted integer by the \<open>double\<close> nearest to \<open>1e-7\<close>; \<open>alt_raw / 1000.0\<close> is a
  \<open>double\<close> division; \<open>h_acc_raw / 1000.0f\<close> converts the \<open>uint32_t\<close> to \<open>float\<close>
  (a rounding) and divides in \<open>float\<close>.
\<close>

definition parse_nav_pvt :: "fpu \<Rightarrow> u8 list \<Rightarrow> zed_position" where
  "parse_nav_pvt fp p =
     (let valid_flags = p ! 11;
          flags = p ! 21;
          lon_raw = ubx_u32 p 24;
          lat_raw = ubx_u32 p 28;
          alt_raw = ubx_u32 p 36;
          h_acc_raw = ubx_u32 p 40;
          v_acc_raw = ubx_u32 p 44
      in \<lparr>year = ubx_u16 (p ! 4) (p ! 5),
          month = p ! 6,
          day = p ! 7,
          hour = p ! 8,
          min_utc = p ! 9,
          sec = p ! 10,
          fix_type = p ! 20,
          carr_soln = drop_bit 6 flags AND 0x03,
          num_sv = p ! 23,
          latitude = fl64 fp (real_of_int (sint lat_raw) * fl64 fp (1 / 10 ^ 7)),
          longitude = fl64 fp (real_of_int (sint lon_raw) * fl64 fp (1 / 10 ^ 7)),
          altitude_msl = fl64 fp (real_of_int (sint alt_raw) / 1000),
          h_acc = fl32 fp (fl32 fp (real (unat h_acc_raw)) / 1000),
          v_acc = fl32 fp (fl32 fp (real (unat v_acc_raw)) / 1000),
          valid = (valid_flags AND 0x01 \<noteq> 0 \<and> 2 \<le> p ! 20)\<rparr>)"

subsection \<open>The frame search loop of zed\_rover\_get\_position\<close>

text \<open>
  The accumulator is the list of the first \<open>ubx_buffer_len\<close> bytes of \<open>ubx_buffer\<close>; the
  loop never reads at or beyond \<open>ubx_buffer_len\<close>. \<open>ubx_search fp buf i\<close> is the
  \<open>for\<close> loop from index \<open>i\<close> on: it returns the accumulator the loop leaves and the
  decoded position when the loop ends in \<open>return true\<close>. The guard \<open>i < ubx_buffer_len - 8\<close>
  is \<open>i + 8 < length buf\<close>; after a skipped message the C code sets \<open>i = -1\<close> and the loop
  increment makes it 0.
\<close>

function ubx_search :: "fpu \<Rightarrow> u8 list \<Rightarrow> nat \<Rightarrow> u8 list \<times> zed_position option" where
  "ubx_search fp buf i =
     (if i + 8 < length buf then
        if buf ! i = 0xB5 \<and> buf ! (i + 1) = 0x62 then
          (let msg_class = buf ! (i + 2);
               msg_id = buf ! (i + 3);
               payload_len = unat (ubx_u16 (buf ! (i + 4)) (buf ! (i + 5)));
               msg_total_len = 6 + payload_len + 2
           in if i + msg_total_len > length buf then (buf, None)
              else case ubx_checksum (take (4 + payload_len) (drop (i + 2) buf)) of
                (ck_a, ck_b) \<Rightarrow>
                  if ck_a \<noteq> buf ! (i + 6 + payload_len) \<or> ck_b \<noteq> buf ! (i + 7 + payload_len)
                  then ubx_search fp buf (i + 1)
                  else if msg_class = 0x01 \<and> msg_id = 0x07 \<and> payload_len = 92
                  then (drop (i + msg_total_len) buf, Some (parse_nav_pvt fp (drop (i + 6) buf)))
                  else ubx_search fp (drop (i + msg_total_len) buf) 0)
        else ubx_search fp buf (i + 1)
      else (buf, None))"
  by pat_completeness auto
termination
  by (relation "measure (\<lambda>(fp, buf, i). 2 * length buf - i)") auto

declare ubx_search.simps [simp del]

subsection \<open>Appending, searching, and the anti-desync reset\<close>

text \<open>
  \<open>ubx_feed fp acc temp\<close> is \<open>zed_rover_get_position\<close> from the append on, for the
  \<open>read_len = length temp\<close> bytes the read stored in \<open>temp_buf\<close>. With \<open>read_len \<le> 0\<close>
  the function has already returned \<open>false\<close> and the accumulator is untouched.
\<close>

definition ubx_append :: "u8 list \<Rightarrow> u8 list \<Rightarrow> u8 list" where
  "ubx_append acc temp =
     (let read_len = length temp;
          copy_len = (if read_len < 256 - length acc then read_len else 256 - length acc)
      in acc @ take copy_len temp)"

definition ubx_feed :: "fpu \<Rightarrow> u8 list \<Rightarrow> u8 list \<Rightarrow> u8 list \<times> zed_position option" where
  "ubx_feed fp acc temp =
     (if length temp = 0 then (acc, None)
      else case ubx_search fp (ubx_append acc temp) 0 of
             (buf, Some pos) \<Rightarrow> (buf, Some pos)
           | (buf, None) \<Rightarrow> (if length buf > 200 then [] else buf, None))"

text \<open>
  Successive calls: the reads \<open>temps\<close> are fed in order, each call starting from the
  accumulator the previous one left. The result is the final accumulator and what each
  call returned.
\<close>

fun ubx_feeds :: "fpu \<Rightarrow> u8 list \<Rightarrow> u8 list list \<Rightarrow> u8 list \<times> zed_position option list" where
  "ubx_feeds fp acc [] = (acc, [])"
| "ubx_feeds fp acc (temp # temps) =
     (case ubx_feed fp acc temp of
        (acc', r) \<Rightarrow> (case ubx_feeds fp acc' temps of (acc'', rs) \<Rightarrow> (acc'', r # rs)))"

text \<open>
  The whole poll: the three I2C transactions are the arguments (the length read of
  \<open>zed_rover_available\<close>, the length read inside \<open>zed_rover_read\<close>, the data transfer).
\<close>

definition zed_rover_get_position ::
  "fpu \<Rightarrow> (u8 \<times> u8) option \<Rightarrow> (u8 \<times> u8) option \<Rightarrow> (nat \<Rightarrow> u8) option \<Rightarrow> u8 list
     \<Rightarrow> u8 list \<times> zed_position option" where
  "zed_rover_get_position fp len_ret1 len_ret2 data_ret acc =
     (let avail = zed_rover_available len_ret1
      in if avail \<le> 0 then (acc, None)
         else case zed_rover_read len_ret2 data_ret 256 of
                (read_len, temp_buf) \<Rightarrow>
                  if read_len \<le> 0 then (acc, None) else ubx_feed fp acc temp_buf)"

section \<open>The correction client (ntrip\_client.c)\<close>

subsection \<open>Base64 (base64\_encode)\<close>

definition base64_chars :: string where
  "base64_chars = ''ABCDEFGHIJKLMNOPQRSTUVWXYZabcdefghijklmnopqrstuvwxyz0123456789+/''"

text \<open>
  \<open>i < input_len ? (unsigned char)input[i++] : 0\<close>: the octet read and the index after it.
\<close>

definition next_octet :: "string \<Rightarrow> nat \<Rightarrow> u32 \<times> nat" where
  "next_octet input i = (if i < length input then (of_char (input ! i), i + 1) else (0, i))"

text \<open>
  The \<open>while\<close> loop. \<open>input\<close> is the C string without its terminator, \<open>out\<close> the
  characters written so far (\<open>j = length out\<close>). \<open>output_len - 4\<close> is computed in the
  32-bit \<open>size_t\<close> of the target.
\<close>

function base64_loop :: "string \<Rightarrow> nat \<Rightarrow> nat \<Rightarrow> string \<Rightarrow> string" where
  "base64_loop input output_len i out =
     (if i < length input \<and> length out < (output_len + 2 ^ 32 - 4) mod 2 ^ 32 then
        (case next_octet input i of (octet_a, i1) \<Rightarrow>
         case next_octet input i1 of (octet_b, i2) \<Rightarrow>
         case next_octet input i2 of (octet_c, i3) \<Rightarrow>
           (let triple = push_bit 16 octet_a + push_bit 8 octet_b + octet_c
            in base64_loop input output_len i3
                 (out @ [base64_chars ! unat (drop_bit 18 triple AND 0x3F),
                         base64_chars ! unat (drop_bit 12 triple AND 0x3F),
                         if i3 > length input + 1 then CHR ''=''
                         else base64_chars ! unat (drop_bit 6 triple AND 0x3F),
                         if i3 > length input then CHR ''=''
                         else base64_chars ! unat (triple AND 0x3F)])))
      else out)"
  by pat_completeness auto
termination
  by (relation "measure (\<lambda>(input, output_len, i, out). length input - i)")
     (auto simp: next_octet_def split: if_splits)

declare base64_loop.simps [simp del]

definition base64_encode :: "string \<Rightarrow> nat \<Rightarrow> string" where
  "base64_encode input output_len = base64_loop input output_len 0 []"

subsection \<open>Client state and the socket interface\<close>

text \<open>
  The module's static variables, together with the list of socket-interface calls the
  module has made so far (the latest last). \<open>TickType_t\<close> is a 32-bit unsigned integer.
\<close>

datatype os_call =
    Gethostbyname string
  | Socket
  | Setsockopt_rcvtimeo int nat nat
  | Setsockopt_sndtimeo int nat nat
  | Connect int string nat
  | Send int string nat
  | Recv int nat
  | Close int

record ntrip_client =
  s_sock :: int
  s_connected :: bool
  s_bytes_received :: u32
  s_last_data_time :: u32
  os_calls :: "os_call list"

datatype esp_err = ESP_OK | ESP_FAIL

text \<open>
  The constants of \<open>config.h\<close>, which is not part of the sources: a parameter.
\<close>

record ntrip_config =
  NTRIP_HOST :: string
  NTRIP_PORT :: nat
  NTRIP_MOUNTPOINT :: string
  NTRIP_USER :: string
  NTRIP_PASSWORD :: string

text \<open>
  What the environment answers during one \<open>ntrip_client_connect\<close>: whether the name
  resolves, the return values of \<open>socket\<close>, \<open>connect\<close>, \<open>send\<close> and \<open>recv\<close>, the bytes
  \<open>recv\<close> stored, and the tick count.
\<close>

record connect_env =
  host_found :: bool
  socket_ret :: int
  connect_ret :: int
  send_ret :: int
  recv_ret :: int
  recv_data :: string
  tick_count :: u32

text \<open>\<open>errno\<close> values of the target's C library, where both names are the same number.\<close>

definition EAGAIN :: int where
  "EAGAIN = 11"

definition EWOULDBLOCK :: int where
  "EWOULDBLOCK = 11"

subsection \<open>String helpers\<close>

text \<open>\<open>strstr(haystack, needle) != NULL\<close> on C strings.\<close>

fun strstr_found :: "string \<Rightarrow> string \<Rightarrow> bool" where
  "strstr_found [] needle = (needle = [])"
| "strstr_found (c # cs) needle =
     (take (length needle) (c # cs) = needle \<or> strstr_found cs needle)"

text \<open>The C string held by a buffer: the characters before the first NUL.\<close>

definition c_string :: "string \<Rightarrow> string" where
  "c_string buf = takeWhile (\<lambda>c. c \<noteq> CHR 0x00) buf"

text \<open>
  \<open>snprintf(buf, n, ...)\<close> stores at most \<open>n - 1\<close> characters of the formatted text
  and returns the length of the whole text.
\<close>

definition snprintf :: "nat \<Rightarrow> string \<Rightarrow> string \<times> nat" where
  "snprintf n formatted = (take (n - 1) formatted, length formatted)"

definition ntrip_request :: "ntrip_config \<Rightarrow> string \<times> nat" where
  "ntrip_request cfg =
     (if length (NTRIP_USER cfg) > 0 \<and> length (NTRIP_PASSWORD cfg) > 0 then
        (let credentials = fst (snprintf 128 (NTRIP_USER cfg @ '':'' @ NTRIP_PASSWORD cfg));
             auth_base64 = base64_encode credentials 256
         in snprintf 512
              (''GET /'' @ NTRIP_MOUNTPOINT cfg @ '' HTTP/1.1'' @ [CHR 0x0D, CHR 0x0A]
               @ ''Host: '' @ NTRIP_HOST cfg @ [CHR 0x0D, CHR 0x0A]
               @ ''User-Agent: NTRIP TestClient/1.0'' @ [CHR 0x0D, CHR 0x0A]
               @ ''Ntrip-Version: Ntrip/2.0'' @ [CHR 0x0D, CHR 0x0A]
               @ ''Authorization: Basic '' @ auth_base64 @ [CHR 0x0D, CHR 0x0A]
               @ [CHR 0x0D, CHR 0x0A]))
      else
        snprintf 512
          (''GET /'' @ NTRIP_MOUNTPOINT cfg @ '' HTTP/1.1'' @ [CHR 0x0D, CHR 0x0A]
           @ ''Host: '' @ NTRIP_HOST cfg @ [CHR 0x0D, CHR 0x0A]
           @ ''User-Agent: NTRIP TestClient/1.0'' @ [CHR 0x0D, CHR 0x0A]
           @ ''Ntrip-Version: Ntrip/2.0'' @ [CHR 0x0D, CHR 0x0A]
           @ [CHR 0x0D, CHR 0x0A]))"

subsection \<open>Connecting (ntrip\_client\_connect)\<close>

definition called :: "os_call list \<Rightarrow> ntrip_client \<Rightarrow> ntrip_client" where
  "called cs st = st\<lparr>os_calls := os_calls st @ cs\<rparr>"

text \<open>The failure exits \<open>close(s_sock); s_sock = -1; return ESP_FAIL\<close>.\<close>

definition close_and_fail :: "ntrip_client \<Rightarrow> ntrip_client \<times> esp_err" where
  "close_and_fail st = ((called [Close (s_sock st)] st)\<lparr>s_sock := - 1\<rparr>, ESP_FAIL)"

definition ntrip_client_connect ::
  "ntrip_config \<Rightarrow> connect_env \<Rightarrow> ntrip_client \<Rightarrow> ntrip_client \<times> esp_err" where
  "ntrip_client_connect cfg env st =
     (if s_connected st then (st, ESP_OK)
      else
        (let st1 = called [Gethostbyname (NTRIP_HOST cfg)] st
         in if \<not> host_found env then (st1, ESP_FAIL)
            else
              (let st2 = (called [Socket] st1)\<lparr>s_sock := socket_ret env\<rparr>
               in if s_sock st2 < 0 then (st2, ESP_FAIL)
                  else
                    (let st3 = called [Setsockopt_rcvtimeo (s_sock st2) 10 0,
                                       Setsockopt_sndtimeo (s_sock st2) 10 0,
                                       Connect (s_sock st2) (NTRIP_HOST cfg) (NTRIP_PORT cfg)] st2
                     in if connect_ret env \<noteq> 0 then close_and_fail st3
                        else
                          (case ntrip_request cfg of
                             (request, req_len) \<Rightarrow>
                               (let st4 = called [Send (s_sock st3) request req_len] st3
                                in if send_ret env < 0 then close_and_fail st4
                                   else
                                     (let st5 = called [Recv (s_sock st4) 511] st4;
                                          len = recv_ret env
                                      in if len < 0 then close_and_fail st5
                                         else
                                           (let response = c_string (take (nat len) (recv_data env))
                                            in if strstr_found response ''200''
                                                  \<or> strstr_found response ''ICY''
                                               then
                                                 ((called [Setsockopt_rcvtimeo (s_sock st5) 0 100000] st5)
                                                    \<lparr>s_connected := True,
                                                     s_last_data_time := tick_count env\<rparr>,
                                                  ESP_OK)
                                               else close_and_fail st5))))))))"

subsection \<open>Receiving (ntrip\_client\_receive)\<close>

text \<open>
  The arguments are the buffer size, the return value of \<open>recv\<close>, the value of \<open>errno\<close>
  after it, and the tick count. The result is the new state and the return value.
\<close>

definition ntrip_client_receive ::
  "nat \<Rightarrow> int \<Rightarrow> int \<Rightarrow> u32 \<Rightarrow> ntrip_client \<Rightarrow> ntrip_client \<times> int" where
  "ntrip_client_receive max_len received errno now st =
     (if \<not> s_connected st \<or> s_sock st < 0 then (st, - 1)
      else
        (let st1 = called [Recv (s_sock st) max_len] st
         in if received < 0 then
              (if errno = EAGAIN \<or> errno = EWOULDBLOCK then (st1, 0)
               else ((called [Close (s_sock st1)] st1)\<lparr>s_connected := False, s_sock := - 1\<rparr>, - 1))
            else if received = 0 then
              ((called [Close (s_sock st1)] st1)\<lparr>s_connected := False, s_sock := - 1\<rparr>, - 1)
            else
              (st1\<lparr>s_bytes_received := s_bytes_received st1 + word_of_int received,
                   s_last_data_time := now\<rparr>,
               received)))"

section \<open>The connectivity manager (wifi.c)\<close>






section \<open>Notions of the specification\<close>

subsection \<open>Wire frames\<close>

text \<open>
  The wire format of the interface description: two sync bytes, class, id, the payload
  length as a little-endian 16-bit number, the payload, and the two checksum bytes
  computed over class, id, length and payload. \<open>wire_body\<close> is the part the checksum
  covers. The format carries payloads of fewer than 65536 bytes.
\<close>

definition wire_body :: "u8 \<Rightarrow> u8 \<Rightarrow> u8 list \<Rightarrow> u8 list" where
  "wire_body cls mid payload =
     [cls, mid, of_nat (length payload), of_nat (length payload div 256)] @ payload"

definition wire_frame :: "u8 \<Rightarrow> u8 \<Rightarrow> u8 list \<Rightarrow> u8 list" where
  "wire_frame cls mid payload =
     [0xB5, 0x62] @ wire_body cls mid payload
       @ [fst (ubx_checksum (wire_body cls mid payload)),
          snd (ubx_checksum (wire_body cls mid payload))]"

text \<open>
  A message is its class, id and payload. A stream of messages is well formed when each
  payload length fits the 16-bit length field; its wire stream is the concatenation of
  the frames. The target fix message is class 0x01, id 0x07 with a 92-byte payload.
\<close>

type_synonym ubx_msg = "u8 \<times> u8 \<times> u8 list"

definition wire_msg :: "ubx_msg \<Rightarrow> u8 list" where
  "wire_msg m = (case m of (cls, mid, payload) \<Rightarrow> wire_frame cls mid payload)"

definition msg_payload :: "ubx_msg \<Rightarrow> u8 list" where
  "msg_payload m = snd (snd m)"

definition is_nav_pvt :: "ubx_msg \<Rightarrow> bool" where
  "is_nav_pvt m = (case m of (cls, mid, payload) \<Rightarrow> cls = 0x01 \<and> mid = 0x07 \<and> length payload = 92)"

definition wire_stream :: "ubx_msg list \<Rightarrow> u8 list" where
  "wire_stream ms = concat (map wire_msg ms)"

definition well_formed :: "ubx_msg list \<Rightarrow> bool" where
  "well_formed ms = list_all (\<lambda>m. length (msg_payload m) < 65536) ms"

text \<open>
  The reads fit the accumulator when, call after call, no read is cut short at the
  capacity of 256 bytes and no call that returns no position ends with more than 200
  bytes in the accumulator, so that the reset at the end of the call leaves it alone.
\<close>

fun reads_fit :: "fpu \<Rightarrow> u8 list \<Rightarrow> u8 list list \<Rightarrow> bool" where
  "reads_fit fp acc [] = True"
| "reads_fit fp acc (temp # temps) =
     (length acc + length temp \<le> 256
      \<and> (temp = [] \<or> snd (ubx_search fp (acc @ temp) 0) \<noteq> None
           \<or> length (fst (ubx_search fp (acc @ temp) 0)) \<le> 200)
      \<and> reads_fit fp (fst (ubx_feed fp acc temp)) temps)"

text \<open>
  \<open>frame_at buf j n\<close>: the scan accepts a frame at index \<open>j\<close> of \<open>buf\<close>. The loop guard
  holds there, the two sync bytes are in place, the length field reads \<open>n\<close>, the
  \<open>n + 8\<close> bytes of the frame are within \<open>buf\<close>, and the two bytes behind the payload
  are the checksum of class, id, length and payload.
\<close>

definition frame_at :: "u8 list \<Rightarrow> nat \<Rightarrow> nat \<Rightarrow> bool" where
  "frame_at buf j n =
     (j + 8 < length buf \<and> buf ! j = 0xB5 \<and> buf ! (j + 1) = 0x62
      \<and> n = unat (ubx_u16 (buf ! (j + 4)) (buf ! (j + 5)))
      \<and> j + (6 + n + 2) \<le> length buf
      \<and> ubx_checksum (take (4 + n) (drop (j + 2) buf)) = (buf ! (j + 6 + n), buf ! (j + 7 + n)))"

subsection \<open>Little-endian fields and rounding\<close>

text \<open>
  The value of the four bytes at offset \<open>k\<close> read as a little-endian unsigned and as a
  little-endian two's-complement 32-bit integer.
\<close>

definition le_u32 :: "u8 list \<Rightarrow> nat \<Rightarrow> nat" where
  "le_u32 p k =
     unat (p ! k) + 256 * unat (p ! (k + 1)) + 65536 * unat (p ! (k + 2))
       + 16777216 * unat (p ! (k + 3))"

definition le_i32 :: "u8 list \<Rightarrow> nat \<Rightarrow> int" where
  "le_i32 p k = (if le_u32 p k < 2 ^ 31 then int (le_u32 p k) else int (le_u32 p k) - 2 ^ 32)"

text \<open>
  What is assumed of the floating-point unit, as IEEE 754 arithmetic with rounding to
  nearest provides it: zero is represented exactly, and rounding a number in the normal
  range of the format changes it by at most half a unit in the last place (a relative
  error of \<open>1 / 2 ^ 53\<close> for \<open>double\<close> and \<open>1 / 2 ^ 24\<close> for \<open>float\<close>).
\<close>

definition fpu_accurate :: "fpu \<Rightarrow> bool" where
  "fpu_accurate fp =
     (fl64 fp 0 = 0 \<and> fl32 fp 0 = 0
      \<and> (\<forall>x. 1 / 2 ^ 1022 \<le> \<bar>x\<bar> \<and> \<bar>x\<bar> \<le> 2 ^ 1023 \<longrightarrow> \<bar>fl64 fp x - x\<bar> \<le> \<bar>x\<bar> * (1 / 2 ^ 53))
      \<and> (\<forall>x. 1 / 2 ^ 126 \<le> \<bar>x\<bar> \<and> \<bar>x\<bar> \<le> 2 ^ 127 \<longrightarrow> \<bar>fl32 fp x - x\<bar> \<le> \<bar>x\<bar> * (1 / 2 ^ 24)))"

subsection \<open>Network selection\<close>






subsection \<open>Example inputs\<close>

text \<open>A 92-byte payload whose latitude field (offset 28) holds 456471947.\<close>

definition example_payload :: "u8 list" where
  "example_payload = replicate 28 0 @ [0x8B, 0x35, 0x35, 0x1B] @ replicate 60 0"

text \<open>
  Messages for the examples: a satellite-information message with a 236-byte payload, an
  acknowledgement, and a target fix message.
\<close>

definition sat_msg :: ubx_msg where
  "sat_msg = (0x01, 0x35, replicate 236 0)"

definition ack_msg :: ubx_msg where
  "ack_msg = (0x05, 0x01, [0x06, 0x01])"

definition nav_msg :: ubx_msg where
  "nav_msg = (0x01, 0x07, example_payload)"

definition two_frame_stream :: "u8 list" where
  "two_frame_stream = wire_stream [sat_msg, nav_msg]"

text \<open>
  The target frame of \<open>example_payload\<close> and the satellite-information frame, each with
  its first checksum byte raised by one (the checksums are \<open>0x74 0xD1\<close> and
  \<open>0x22 0xD3\<close>).
\<close>

definition bad_nav_frame :: "u8 list" where
  "bad_nav_frame = [0xB5, 0x62] @ wire_body 0x01 0x07 example_payload @ [0x75, 0xD1]"

definition bad_sat_frame :: "u8 list" where
  "bad_sat_frame = [0xB5, 0x62] @ wire_body 0x01 0x35 (replicate 236 0) @ [0x23, 0xD3]"




definition streaming_client :: ntrip_client where
  "streaming_client =
     \<lparr>s_sock = 3, s_connected = True, s_bytes_received = 1000, s_last_data_time = 500,
      os_calls = []\<rparr>"

definition example_config :: ntrip_config where
  "example_config =
     \<lparr>NTRIP_HOST = ''caster.example.org'', NTRIP_PORT = 2101, NTRIP_MOUNTPOINT = ''BASE'',
      NTRIP_USER = ''user'', NTRIP_PASSWORD = ''pass''\<rparr>"

definition example_env :: connect_env where
  "example_env =
     \<lparr>host_found = True, socket_ret = 4, connect_ret = 0, send_ret = 100, recv_ret = 10,
      recv_data = ''ICY 200 OK'', tick_count = 700\<rparr>"

section \<open>Properties\<close>

text \<open>
  C8. \<open>available()\<close> returns the two register bytes combined big-endian when the read
  succeeds and the combined value is not 0xFFFF, 0 when it is 0xFFFF, and -1 when the
  transaction fails.
\<close>

theorem zed_rover_available_spec:
  "zed_rover_available ret =
     (case ret of
        None \<Rightarrow> - 1
      | Some (len_h, len_l) \<Rightarrow>
          if len_h = 0xFF \<and> len_l = 0xFF then 0 else 256 * uint len_h + uint len_l)"
proof (cases ret)
  case None
  then show ?thesis by (simp add: zed_rover_available_def)
next
  case (Some hl)
  obtain h l where hl: "hl = (h, l)" by (cases hl)
  have disj: "push_bit 8 (uint h) AND uint l = 0"
    by (rule bit_eqI) (auto simp: bit_simps dest: bit_imp_le_length)
  have comb: "push_bit 8 (uint h) OR uint l = 256 * uint h + uint l"
    using disjunctive_add_eq_or [OF disj] by (simp add: push_bit_eq_mult)
  have hb: "uint h < 256" "0 \<le> uint h" using uint_bounded [of h] by simp_all
  have lb: "uint l < 256" "0 \<le> uint l" using uint_bounded [of l] by simp_all
  have sent: "(256 * uint h + uint l = 65535) = (h = 0xFF \<and> l = 0xFF)"
  proof
    assume "256 * uint h + uint l = 65535"
    with hb lb have "uint h = 255 \<and> uint l = 255" by arith
    then show "h = 0xFF \<and> l = 0xFF" by (simp add: word_uint_eq_iff)
  next
    assume "h = 0xFF \<and> l = 0xFF"
    then show "256 * uint h + uint l = 65535" by simp
  qed
  show ?thesis
    unfolding Some hl zed_rover_available_def
    by (simp add: Let_def comb sent)
qed

text \<open>
  C5. The decoded position is valid exactly when bit 0 of the validity-flags byte
  (payload offset 11) is set and the fix-quality byte (payload offset 20) is at least 2.
\<close>

theorem nav_pvt_valid_iff:
  "valid (parse_nav_pvt fp p) = (bit (p ! 11) 0 \<and> 2 \<le> unat (p ! 20))"
  by (simp add: parse_nav_pvt_def Let_def and_one_eq bit_0 mod_2_eq_odd word_le_nat_alt)

subsection \<open>Base64\<close>

text \<open>The encoder never writes the padding character.\<close>

lemma base64_chars_no_pad: "CHR ''='' \<notin> set base64_chars"
  by (simp add: base64_chars_def)

lemma base64_chars_nth:
  "base64_chars ! unat ((w :: u32) AND 0x3F) \<noteq> CHR ''=''"
proof -
  have "unat (w AND 0x3F) \<le> unat (0x3F :: u32)"
    by (rule word_and_le1 [THEN word_le_nat_alt [THEN iffD1]])
  then have "unat (w AND 0x3F) < length base64_chars"
    by (simp add: base64_chars_def)
  from nth_mem [OF this] base64_chars_no_pad show ?thesis by metis
qed

lemma next_octet_le:
  "i \<le> length input \<Longrightarrow> next_octet input i = (octet, i') \<Longrightarrow> i' \<le> length input"
  by (auto simp: next_octet_def split: if_splits)

lemma base64_loop_never_pads:
  "i \<le> length input \<Longrightarrow> CHR ''='' \<notin> set out \<Longrightarrow>
   CHR ''='' \<notin> set (base64_loop input output_len i out)"
proof (induction input output_len i out rule: base64_loop.induct)
  case (1 input output_len i out)
  show ?case
  proof (cases "i < length input \<and> length out < (output_len + 2 ^ 32 - 4) mod 2 ^ 32")
    case False
    have "base64_loop input output_len i out = out"
      by (subst base64_loop.simps) (simp only: False if_False)
    then show ?thesis using "1.prems"(2) by simp
  next
    case True
    obtain a i1 where n1: "next_octet input i = (a, i1)" by (cases "next_octet input i")
    obtain b i2 where n2: "next_octet input i1 = (b, i2)" by (cases "next_octet input i1")
    obtain c i3 where n3: "next_octet input i2 = (c, i3)" by (cases "next_octet input i2")
    have le: "i3 \<le> length input"
      using next_octet_le [OF next_octet_le [OF next_octet_le [OF "1.prems"(1) n1] n2] n3] .
    define triple where "triple = push_bit 16 a + push_bit 8 b + c"
    define out' where "out' = out @ [base64_chars ! unat (drop_bit 18 triple AND 0x3F),
                         base64_chars ! unat (drop_bit 12 triple AND 0x3F),
                         if i3 > length input + 1 then CHR ''=''
                         else base64_chars ! unat (drop_bit 6 triple AND 0x3F),
                         if i3 > length input then CHR ''=''
                         else base64_chars ! unat (triple AND 0x3F)]"
    have np: "CHR ''='' \<notin> set out'"
      using "1.prems"(2) le by (simp add: out'_def base64_chars_nth [THEN not_sym])
    have "base64_loop input output_len i out = base64_loop input output_len i3 out'"
      using True by (subst base64_loop.simps) (simp add: n1 n2 n3 Let_def triple_def out'_def)
    moreover have "CHR ''='' \<notin> set (base64_loop input output_len i3 out')"
      unfolding out'_def triple_def
      by (rule "1.IH" [OF True n1 [symmetric] n2 [symmetric] n3 [symmetric] refl le
          np [unfolded out'_def triple_def]])
    ultimately show ?thesis by simp
  qed
qed

lemma base64_encode_never_pads: "CHR ''='' \<notin> set (base64_encode input output_len)"
  by (simp add: base64_encode_def base64_loop_never_pads)

text \<open>
  C2. On the 19-character input \<open>Aladdin:open sesame\<close> the encoder ends the output with
  \<open>AA\<close> where standard base64 has the padding \<open>==\<close>: the index \<open>i\<close> never exceeds the
  input length, so neither padding test of the loop can succeed.
\<close>

theorem base64_encode_aladdin:
  "base64_encode ''Aladdin:open sesame'' 256 = ''QWxhZGRpbjpvcGVuIHNlc2FtZQAA''"
  by (simp add: base64_encode_def base64_loop.simps next_octet_def base64_chars_def)

text \<open>
  C10. While the session is streaming, \<open>connect\<close> returns success at once: no socket
  interface call is made and no variable of the client changes.
\<close>

theorem ntrip_client_connect_idempotent:
  "s_connected st \<Longrightarrow> ntrip_client_connect cfg env st = (st, ESP_OK)"
  by (simp add: ntrip_client_connect_def)

theorem ntrip_client_connect_idempotent_witness:
  "s_connected streaming_client
   \<and> ntrip_client_connect example_config example_env streaming_client
       = (streaming_client, ESP_OK)"
  using ntrip_client_connect_idempotent [of streaming_client example_config example_env]
  by (simp add: streaming_client_def)

text \<open>
  C7. While the session is streaming, \<open>receive\<close> returns the positive byte count and
  updates the last-activity time and the received-byte counter when data arrived; returns 0
  and leaves the client's variables as they are when the read found no data
  (\<open>EAGAIN\<close>/\<open>EWOULDBLOCK\<close>); and returns -1, closes the socket and leaves the session
  disconnected on any other read error and on an orderly close by the peer.
\<close>

theorem ntrip_client_receive_streaming:
  "s_connected st \<and> 0 \<le> s_sock st \<Longrightarrow>
   ntrip_client_receive max_len received errno now st =
     (if 0 < received then
        (st\<lparr>s_bytes_received := s_bytes_received st + word_of_int received,
            s_last_data_time := now,
            os_calls := os_calls st @ [Recv (s_sock st) max_len]\<rparr>, received)
      else if received < 0 \<and> (errno = EAGAIN \<or> errno = EWOULDBLOCK) then
        (st\<lparr>os_calls := os_calls st @ [Recv (s_sock st) max_len]\<rparr>, 0)
      else
        (st\<lparr>s_sock := - 1, s_connected := False,
            os_calls := os_calls st @ [Recv (s_sock st) max_len, Close (s_sock st)]\<rparr>, - 1))"
  by (auto simp: ntrip_client_receive_def called_def Let_def)

theorem ntrip_client_receive_streaming_witness:
  "s_connected streaming_client \<and> 0 \<le> s_sock streaming_client
   \<and> ntrip_client_receive 1024 200 0 900 streaming_client =
        (streaming_client\<lparr>s_bytes_received := 1200, s_last_data_time := 900,
                           os_calls := [Recv 3 1024]\<rparr>, 200)
   \<and> ntrip_client_receive 1024 (- 1) EAGAIN 900 streaming_client =
        (streaming_client\<lparr>os_calls := [Recv 3 1024]\<rparr>, 0)
   \<and> ntrip_client_receive 1024 (- 1) 104 900 streaming_client =
        (streaming_client\<lparr>s_sock := - 1, s_connected := False,
                           os_calls := [Recv 3 1024, Close 3]\<rparr>, - 1)
   \<and> ntrip_client_receive 1024 0 0 900 streaming_client =
        (streaming_client\<lparr>s_sock := - 1, s_connected := False,
                           os_calls := [Recv 3 1024, Close 3]\<rparr>, - 1)"
  using ntrip_client_receive_streaming [of streaming_client 1024 200 0 900]
    ntrip_client_receive_streaming [of streaming_client 1024 "- 1" EAGAIN 900]
    ntrip_client_receive_streaming [of streaming_client 1024 "- 1" 104 900]
    ntrip_client_receive_streaming [of streaming_client 1024 0 0 900]
  by (simp add: streaming_client_def EAGAIN_def EWOULDBLOCK_def)

subsection \<open>Field decoding\<close>

lemma or_push_bit_nat:
  fixes a b :: nat
  assumes "a < 2 ^ n"
  shows "a OR push_bit n b = a + 2 ^ n * b"
proof -
  from assms have a: "take_bit n a = a" by (simp add: take_bit_nat_eq_self)
  have "take_bit n a AND push_bit n b = 0"
    by (rule bit_eqI) (auto simp: bit_simps)
  then have "a AND push_bit n b = 0" by (simp only: a)
  from disjunctive_add_eq_or [OF this] show ?thesis
    by (simp add: push_bit_eq_mult mult.commute)
qed

lemma unat_u8_lt: "unat (b :: u8) < 256"
  using unsigned_less [of b, where ?'a = nat] by simp

lemma unat_push_ucast_u16:
  "n \<le> 8 \<Longrightarrow> unat (push_bit n (ucast (b :: u8)) :: u16) = push_bit n (unat b)"
proof -
  assume n: "n \<le> 8"
  have "(2::nat) ^ n \<le> 2 ^ 8"
    using n by (intro power_increasing) simp_all
  then have "unat b * 2 ^ n < 2 ^ 8 * 2 ^ 8"
    using unat_u8_lt [of b]
    by (intro mult_less_le_imp_less) simp_all
  then have "push_bit n (unat b) < 2 ^ 16" by (simp add: push_bit_eq_mult)
  then show ?thesis
    using unat_u8_lt [of b]
    by (simp add: unsigned_push_bit_eq unsigned_ucast_eq take_bit_nat_eq_self)
qed

lemma ubx_u16_eq_add:
  "unat (ubx_u16 b0 b1) = unat b0 + 256 * unat b1"
proof -
  have "unat (ubx_u16 b0 b1) = push_bit 0 (unat b0) OR push_bit 8 (unat b1)"
    unfolding ubx_u16_def unsigned_or_eq
    using unat_push_ucast_u16 [of 0 b0] unat_push_ucast_u16 [of 8 b1] by simp
  also have "\<dots> = unat b0 + 256 * unat b1"
    using or_push_bit_nat [of "unat b0" 8 "unat b1"] unat_u8_lt [of b0] by simp
  finally show ?thesis .
qed

lemma ubx_u16_length:
  assumes "n < 65536"
  shows "unat (ubx_u16 (of_nat n) (of_nat (n div 256))) = n"
proof -
  have "unat (of_nat n :: u8) = n mod 256"
    by (simp add: unat_of_nat)
  moreover have "unat (of_nat (n div 256) :: u8) = n div 256"
    using assms by (simp add: unat_of_nat)
  ultimately show ?thesis
    by (simp add: ubx_u16_eq_add)
qed

lemma unat_push_ucast_u32:
  "n \<le> 24 \<Longrightarrow> unat (push_bit n (ucast (b :: u8)) :: u32) = push_bit n (unat b)"
proof -
  assume n: "n \<le> 24"
  have "(2::nat) ^ n \<le> 2 ^ 24"
    using n by (intro power_increasing) simp_all
  then have "unat b * 2 ^ n < 2 ^ 8 * 2 ^ 24"
    using unat_u8_lt [of b]
    by (intro mult_less_le_imp_less) simp_all
  then have "push_bit n (unat b) < 2 ^ 32" by (simp add: push_bit_eq_mult)
  then show ?thesis
    using unat_u8_lt [of b]
    by (simp add: unsigned_push_bit_eq unsigned_ucast_eq take_bit_nat_eq_self)
qed

lemma ubx_u32_le_u32: "unat (ubx_u32 p k) = le_u32 p k"
proof -
  define a b c d where "a = unat (p ! k)" and "b = unat (p ! (k + 1))"
    and "c = unat (p ! (k + 2))" and "d = unat (p ! (k + 3))"
  have bd: "a < 256" "b < 256" "c < 256" "d < 256"
    unfolding a_def b_def c_def d_def by (rule unat_u8_lt)+
  have "unat (ubx_u32 p k) = ((a OR push_bit 8 b) OR push_bit 16 c) OR push_bit 24 d"
    unfolding ubx_u32_def unsigned_or_eq a_def b_def c_def d_def
    using unat_push_ucast_u32 [of 0 "p ! k"] unat_push_ucast_u32 [of 8 "p ! (k + 1)"]
      unat_push_ucast_u32 [of 16 "p ! (k + 2)"] unat_push_ucast_u32 [of 24 "p ! (k + 3)"]
    by (simp add: or.assoc)
  also have "a OR push_bit 8 b = a + 256 * b"
    using or_push_bit_nat [of a 8 b] bd by simp
  also have "(a + 256 * b) OR push_bit 16 c = a + 256 * b + 65536 * c"
    using or_push_bit_nat [of "a + 256 * b" 16 c] bd by simp
  also have "(a + 256 * b + 65536 * c) OR push_bit 24 d = a + 256 * b + 65536 * c + 16777216 * d"
    using or_push_bit_nat [of "a + 256 * b + 65536 * c" 24 d] bd by simp
  finally show ?thesis unfolding a_def b_def c_def d_def le_u32_def .
qed

lemma shift_mod:
  fixes k :: int
  assumes "0 \<le> k" "k < 4294967296"
  shows "(k + 2147483648) mod 4294967296 - 2147483648
           = (if k < 2147483648 then k else k - 4294967296)"
proof (cases "k < 2147483648")
  case True
  with assms have "(k + 2147483648) mod 4294967296 = k + 2147483648"
    by (intro mod_pos_pos_trivial) simp_all
  with True show ?thesis by simp
next
  case False
  have "k + 2147483648 = (k - 2147483648) + 4294967296"
    by simp
  then have "(k + 2147483648) mod 4294967296 = ((k - 2147483648) + 4294967296) mod 4294967296"
    by (simp only:)
  also have "\<dots> = (k - 2147483648) mod 4294967296"
    by (rule mod_add_self2)
  also have "\<dots> = k - 2147483648"
    using False assms by (intro mod_pos_pos_trivial) simp_all
  finally show ?thesis using False by simp
qed

lemma ubx_u32_le_i32: "sint (ubx_u32 p k) = le_i32 p k"
proof -
  let ?w = "ubx_u32 p k"
  have b: "0 \<le> uint ?w" "uint ?w < 4294967296"
    using uint_bounded [of ?w] by simp_all
  have "sint ?w = (uint ?w + 2147483648) mod 4294967296 - 2147483648"
    by (simp add: sint_uint signed_take_bit_eq_take_bit_shift take_bit_eq_mod)
  also have "\<dots> = (if uint ?w < 2147483648 then uint ?w else uint ?w - 4294967296)"
    using b by (rule shift_mod)
  finally have s: "sint ?w = (if uint ?w < 2147483648 then uint ?w else uint ?w - 4294967296)" .
  have u: "(unat ?w < 2147483648) = (uint ?w < 2147483648)"
    by (metis (mono_tags, lifting) of_nat_less_numeral_iff of_nat_unat)
  have i: "int (unat ?w) = uint ?w" by simp
  show ?thesis
    unfolding le_i32_def ubx_u32_le_u32 [symmetric] s i using u by simp
qed

lemma le_u32_bound: "le_u32 p k < 2 ^ 32"
  using unat_u8_lt [of "p ! k"] unat_u8_lt [of "p ! (k + 1)"] unat_u8_lt [of "p ! (k + 2)"]
    unat_u8_lt [of "p ! (k + 3)"]
  by (simp add: le_u32_def)

lemma le_i32_bound: "\<bar>le_i32 p k\<bar> \<le> 2 ^ 31"
  using le_u32_bound [of p k] by (simp add: le_i32_def)

text \<open>Two roundings in a row, each with relative error at most \<open>u\<close>.\<close>

lemma rel_error_twice:
  fixes r x t u :: real
  assumes u: "0 \<le> u" "u \<le> 1"
    and x: "\<bar>x - t\<bar> \<le> \<bar>t\<bar> * u"
    and r: "\<bar>r - x\<bar> \<le> \<bar>x\<bar> * u"
  shows "\<bar>r - t\<bar> \<le> \<bar>t\<bar> * (3 * u)"
proof -
  have "\<bar>x\<bar> \<le> \<bar>t\<bar> + \<bar>t\<bar> * u" using x by linarith
  then have "\<bar>x\<bar> * u \<le> (\<bar>t\<bar> + \<bar>t\<bar> * u) * u"
    using u(1) by (rule mult_right_mono)
  moreover have "\<bar>t\<bar> * u * u \<le> \<bar>t\<bar> * u * 1"
    using u by (intro mult_left_mono) simp_all
  ultimately have "\<bar>x\<bar> * u \<le> \<bar>t\<bar> * u + \<bar>t\<bar> * u"
    by (simp add: algebra_simps)
  with x r have "\<bar>r - t\<bar> \<le> \<bar>t\<bar> * u + (\<bar>t\<bar> * u + \<bar>t\<bar> * u)" by linarith
  then show ?thesis by (simp add: algebra_simps)
qed

lemma near_bounds:
  fixes x t u :: real
  assumes "0 \<le> u" "u \<le> 1 / 2" "\<bar>x - t\<bar> \<le> \<bar>t\<bar> * u"
  shows "\<bar>t\<bar> / 2 \<le> \<bar>x\<bar> \<and> \<bar>x\<bar> \<le> 2 * \<bar>t\<bar>"
proof -
  define A where "A = \<bar>t\<bar> * u"
  have "\<bar>t\<bar> * u \<le> \<bar>t\<bar> * (1 / 2)"
    using assms(1,2) by (intro mult_left_mono) simp_all
  then have "A \<le> \<bar>t\<bar> / 2" by (simp add: A_def)
  moreover have "\<bar>x - t\<bar> \<le> A" using assms(3) by (simp add: A_def)
  ultimately show ?thesis by linarith
qed

lemma tiny64: "(1::real) / 2 ^ 1022 \<le> 1 / 2 ^ 30"
  by (intro divide_left_mono power_increasing) simp_all

lemma tiny32: "(1::real) / 2 ^ 126 \<le> 1 / 2 ^ 30"
  by (intro divide_left_mono power_increasing) simp_all

lemma huge64: "(2::real) ^ 40 \<le> 2 ^ 1023"
  by (intro power_increasing) simp_all

lemma huge32: "(2::real) ^ 40 \<le> 2 ^ 127"
  by (intro power_increasing) simp_all

lemma fl64_rel:
  assumes "fpu_accurate fp" and "1 / 2 ^ 30 \<le> \<bar>x\<bar>" and "\<bar>x\<bar> \<le> 2 ^ 40"
  shows "\<bar>fl64 fp x - x\<bar> \<le> \<bar>x\<bar> * (1 / 2 ^ 53)"
proof -
  have "1 / 2 ^ 1022 \<le> \<bar>x\<bar>" using tiny64 assms(2) by linarith
  moreover have "\<bar>x\<bar> \<le> 2 ^ 1023" using huge64 assms(3) by linarith
  ultimately show ?thesis using assms(1) by (simp add: fpu_accurate_def)
qed

lemma fl32_rel:
  assumes "fpu_accurate fp" and "1 / 2 ^ 30 \<le> \<bar>x\<bar>" and "\<bar>x\<bar> \<le> 2 ^ 40"
  shows "\<bar>fl32 fp x - x\<bar> \<le> \<bar>x\<bar> * (1 / 2 ^ 24)"
proof -
  have "1 / 2 ^ 126 \<le> \<bar>x\<bar>" using tiny32 assms(2) by linarith
  moreover have "\<bar>x\<bar> \<le> 2 ^ 127" using huge32 assms(3) by linarith
  ultimately show ?thesis using assms(1) by (simp add: fpu_accurate_def)
qed

lemma scaled_degrees:
  fixes n :: int
  assumes acc: "fpu_accurate fp" and n: "\<bar>n\<bar> \<le> 2 ^ 31"
  shows "\<bar>fl64 fp (real_of_int n * fl64 fp (1 / 10 ^ 7)) - real_of_int n / 10 ^ 7\<bar>
           \<le> \<bar>real_of_int n / 10 ^ 7\<bar> * (3 * (1 / 2 ^ 53))"
proof (cases "n = 0")
  case True
  with acc show ?thesis by (simp add: fpu_accurate_def)
next
  case False
  define c0 :: real where "c0 = 1 / 10 ^ 7"
  define c where "c = fl64 fp c0"
  define t where "t = real_of_int n * c0"
  define x where "x = real_of_int n * c"
  have c: "\<bar>c - c0\<bar> \<le> \<bar>c0\<bar> * (1 / 2 ^ 53)"
    unfolding c_def by (rule fl64_rel [OF acc]) (simp_all add: c0_def)
  have "\<bar>x - t\<bar> = \<bar>real_of_int n\<bar> * \<bar>c - c0\<bar>"
    by (simp add: x_def t_def abs_mult [symmetric] algebra_simps)
  also have "\<dots> \<le> \<bar>real_of_int n\<bar> * (\<bar>c0\<bar> * (1 / 2 ^ 53))"
    using c by (intro mult_left_mono) simp_all
  also have "\<dots> = \<bar>t\<bar> * (1 / 2 ^ 53)"
    by (simp add: t_def abs_mult)
  finally have xt: "\<bar>x - t\<bar> \<le> \<bar>t\<bar> * (1 / 2 ^ 53)" .
  have n1: "1 \<le> \<bar>real_of_int n\<bar>" using False by (simp flip: of_int_abs)
  have n2: "\<bar>real_of_int n\<bar> \<le> 2 ^ 31"
    using n by (metis of_int_abs of_int_le_iff of_int_numeral of_int_power)
  have tl: "c0 \<le> \<bar>t\<bar>"
    using mult_right_mono [OF n1, of c0] by (simp add: t_def abs_mult c0_def)
  have tu: "\<bar>t\<bar> \<le> 2 ^ 31 * c0"
    using mult_right_mono [OF n2, of c0] by (simp add: t_def abs_mult c0_def)
  from near_bounds [OF _ _ xt] have nb: "\<bar>t\<bar> / 2 \<le> \<bar>x\<bar>" "\<bar>x\<bar> \<le> 2 * \<bar>t\<bar>" by simp_all
  have "\<bar>fl64 fp x - x\<bar> \<le> \<bar>x\<bar> * (1 / 2 ^ 53)"
  proof (rule fl64_rel [OF acc])
    show "1 / 2 ^ 30 \<le> \<bar>x\<bar>" using nb(1) tl by (simp add: c0_def)
    show "\<bar>x\<bar> \<le> 2 ^ 40" using nb(2) tu by (simp add: c0_def)
  qed
  from rel_error_twice [OF _ _ xt this] have "\<bar>fl64 fp x - t\<bar> \<le> \<bar>t\<bar> * (3 * (1 / 2 ^ 53))"
    by simp
  then show ?thesis by (simp add: x_def t_def c_def c0_def)
qed

lemma scaled_metres64:
  fixes n :: int
  assumes acc: "fpu_accurate fp" and n: "\<bar>n\<bar> \<le> 2 ^ 31"
  shows "\<bar>fl64 fp (real_of_int n / 1000) - real_of_int n / 1000\<bar>
           \<le> \<bar>real_of_int n / 1000\<bar> * (1 / 2 ^ 53)"
proof (cases "n = 0")
  case True
  with acc show ?thesis by (simp add: fpu_accurate_def)
next
  case False
  have n1: "1 \<le> \<bar>real_of_int n\<bar>" using False by (simp flip: of_int_abs)
  have n2: "\<bar>real_of_int n\<bar> \<le> 2 ^ 31"
    using n by (metis of_int_abs of_int_le_iff of_int_numeral of_int_power)
  show ?thesis
  proof (rule fl64_rel [OF acc])
    show "1 / 2 ^ 30 \<le> \<bar>real_of_int n / 1000\<bar>" using n1 by simp
    show "\<bar>real_of_int n / 1000\<bar> \<le> 2 ^ 40" using n2 by simp
  qed
qed

lemma scaled_metres32:
  fixes m :: nat
  assumes acc: "fpu_accurate fp" and m: "m < 2 ^ 32"
  shows "\<bar>fl32 fp (fl32 fp (real m) / 1000) - real m / 1000\<bar>
           \<le> \<bar>real m / 1000\<bar> * (3 * (1 / 2 ^ 24))"
proof (cases "m = 0")
  case True
  with acc show ?thesis by (simp add: fpu_accurate_def)
next
  case False
  define y where "y = fl32 fp (real m)"
  define t where "t = real m / 1000"
  define x where "x = y / 1000"
  have m1: "1 \<le> real m" using False by simp
  have m2: "real m \<le> 2 ^ 32"
    using m by (metis less_imp_le of_nat_le_iff of_nat_numeral of_nat_power)
  have y: "\<bar>y - real m\<bar> \<le> \<bar>real m\<bar> * (1 / 2 ^ 24)"
    unfolding y_def
  proof (rule fl32_rel [OF acc])
    show "1 / 2 ^ 30 \<le> \<bar>real m\<bar>" using m1 by simp
    show "\<bar>real m\<bar> \<le> 2 ^ 40" using m2 by simp
  qed
  have "\<bar>x - t\<bar> = \<bar>y - real m\<bar> / 1000"
    by (simp add: x_def t_def diff_divide_distrib [symmetric])
  also have "\<dots> \<le> (\<bar>real m\<bar> * (1 / 2 ^ 24)) / 1000"
    using y by (intro divide_right_mono) simp_all
  also have "\<dots> = \<bar>t\<bar> * (1 / 2 ^ 24)"
    by (simp add: t_def)
  finally have xt: "\<bar>x - t\<bar> \<le> \<bar>t\<bar> * (1 / 2 ^ 24)" .
  have tl: "1 / 1000 \<le> \<bar>t\<bar>" using m1 by (simp add: t_def)
  have tu: "\<bar>t\<bar> \<le> 2 ^ 32 / 1000" using m2 by (simp add: t_def)
  from near_bounds [OF _ _ xt] have nb: "\<bar>t\<bar> / 2 \<le> \<bar>x\<bar>" "\<bar>x\<bar> \<le> 2 * \<bar>t\<bar>" by simp_all
  have "\<bar>fl32 fp x - x\<bar> \<le> \<bar>x\<bar> * (1 / 2 ^ 24)"
  proof (rule fl32_rel [OF acc])
    show "1 / 2 ^ 30 \<le> \<bar>x\<bar>" using nb(1) tl by simp
    show "\<bar>x\<bar> \<le> 2 ^ 40" using nb(2) tu by simp
  qed
  from rel_error_twice [OF _ _ xt this] have "\<bar>fl32 fp x - t\<bar> \<le> \<bar>t\<bar> * (3 * (1 / 2 ^ 24))"
    by simp
  then show ?thesis by (simp add: x_def t_def y_def)
qed

lemma signed_ubx_u32: "(signed (ubx_u32 p k) :: real) = real_of_int (le_i32 p k)"
  by (simp only: ubx_u32_le_i32 [symmetric] of_int_sint)

lemma unsigned_ubx_u32: "(unsigned (ubx_u32 p k) :: real) = real (le_u32 p k)"
  by (simp only: ubx_u32_le_u32 [symmetric] of_nat_unat)

text \<open>
  C9. Longitude and latitude are the little-endian signed 32-bit fields at payload
  offsets 24 and 28 scaled by \<open>1e-7\<close>, the altitude is the signed field at offset 36
  divided by 1000, and the two accuracies are the unsigned fields at offsets 40 and 44
  divided by 1000, each up to the rounding of the floating-point operations involved
  (two \<open>double\<close> roundings, one \<open>double\<close> rounding, two \<open>float\<close> roundings). The raw
  latitude 456471947 decodes to 45.6471947 degrees within \<open>1e-7\<close>.
\<close>

theorem nav_pvt_scaling:
  assumes acc: "fpu_accurate fp"
  shows "\<bar>longitude (parse_nav_pvt fp p) - real_of_int (le_i32 p 24) / 10 ^ 7\<bar>
           \<le> \<bar>real_of_int (le_i32 p 24) / 10 ^ 7\<bar> * (3 / 2 ^ 53)
       \<and> \<bar>latitude (parse_nav_pvt fp p) - real_of_int (le_i32 p 28) / 10 ^ 7\<bar>
           \<le> \<bar>real_of_int (le_i32 p 28) / 10 ^ 7\<bar> * (3 / 2 ^ 53)
       \<and> \<bar>altitude_msl (parse_nav_pvt fp p) - real_of_int (le_i32 p 36) / 1000\<bar>
           \<le> \<bar>real_of_int (le_i32 p 36) / 1000\<bar> * (1 / 2 ^ 53)
       \<and> \<bar>h_acc (parse_nav_pvt fp p) - real (le_u32 p 40) / 1000\<bar>
           \<le> real (le_u32 p 40) / 1000 * (3 / 2 ^ 24)
       \<and> \<bar>v_acc (parse_nav_pvt fp p) - real (le_u32 p 44) / 1000\<bar>
           \<le> real (le_u32 p 44) / 1000 * (3 / 2 ^ 24)
       \<and> (le_i32 p 28 = 456471947
            \<longrightarrow> \<bar>latitude (parse_nav_pvt fp p) - 456471947 / 10 ^ 7\<bar> \<le> 1 / 10 ^ 7)"
proof -
  have lon: "longitude (parse_nav_pvt fp p)
               = fl64 fp (real_of_int (le_i32 p 24) * fl64 fp (1 / 10 ^ 7))"
    and lat: "latitude (parse_nav_pvt fp p)
               = fl64 fp (real_of_int (le_i32 p 28) * fl64 fp (1 / 10 ^ 7))"
    and alt: "altitude_msl (parse_nav_pvt fp p) = fl64 fp (real_of_int (le_i32 p 36) / 1000)"
    and hac: "h_acc (parse_nav_pvt fp p) = fl32 fp (fl32 fp (real (le_u32 p 40)) / 1000)"
    and vac: "v_acc (parse_nav_pvt fp p) = fl32 fp (fl32 fp (real (le_u32 p 44)) / 1000)"
    by (simp_all add: parse_nav_pvt_def Let_def signed_ubx_u32 unsigned_ubx_u32)
  have c1: "\<bar>longitude (parse_nav_pvt fp p) - real_of_int (le_i32 p 24) / 10 ^ 7\<bar>
           \<le> \<bar>real_of_int (le_i32 p 24) / 10 ^ 7\<bar> * (3 / 2 ^ 53)"
    unfolding lon using scaled_degrees [OF acc le_i32_bound, of p 24] by simp
  have c2: "\<bar>latitude (parse_nav_pvt fp p) - real_of_int (le_i32 p 28) / 10 ^ 7\<bar>
           \<le> \<bar>real_of_int (le_i32 p 28) / 10 ^ 7\<bar> * (3 / 2 ^ 53)"
    unfolding lat using scaled_degrees [OF acc le_i32_bound, of p 28] by simp
  have c3: "\<bar>altitude_msl (parse_nav_pvt fp p) - real_of_int (le_i32 p 36) / 1000\<bar>
           \<le> \<bar>real_of_int (le_i32 p 36) / 1000\<bar> * (1 / 2 ^ 53)"
    unfolding alt by (rule scaled_metres64 [OF acc le_i32_bound])
  have c4: "\<bar>h_acc (parse_nav_pvt fp p) - real (le_u32 p 40) / 1000\<bar>
           \<le> real (le_u32 p 40) / 1000 * (3 / 2 ^ 24)"
    unfolding hac using scaled_metres32 [OF acc le_u32_bound, of p 40] by simp
  have c5: "\<bar>v_acc (parse_nav_pvt fp p) - real (le_u32 p 44) / 1000\<bar>
           \<le> real (le_u32 p 44) / 1000 * (3 / 2 ^ 24)"
    unfolding vac using scaled_metres32 [OF acc le_u32_bound, of p 44] by simp
  have c6: "le_i32 p 28 = 456471947
            \<longrightarrow> \<bar>latitude (parse_nav_pvt fp p) - 456471947 / 10 ^ 7\<bar> \<le> 1 / 10 ^ 7"
  proof
    assume e: "le_i32 p 28 = 456471947"
    have "(456471947 / 10 ^ 7 :: real) * (3 / 2 ^ 53) \<le> 1 / 10 ^ 7" by simp
    with c2 [unfolded e] show "\<bar>latitude (parse_nav_pvt fp p) - 456471947 / 10 ^ 7\<bar> \<le> 1 / 10 ^ 7"
      by simp
  qed
  from c1 c2 c3 c4 c5 c6 show ?thesis by blast
qed

lemma example_payload_nth: "example_payload ! 28 = 0x8B" "example_payload ! 29 = 0x35"
  "example_payload ! 30 = 0x35" "example_payload ! 31 = 0x1B"
  by (simp_all add: example_payload_def nth_append)

theorem nav_pvt_scaling_witness:
  "fpu_accurate exact_fpu
   \<and> le_i32 example_payload 28 = 456471947
   \<and> \<bar>latitude (parse_nav_pvt exact_fpu example_payload) - 456471947 / 10 ^ 7\<bar> \<le> 1 / 10 ^ 7"
proof -
  have a: "fpu_accurate exact_fpu"
    by (simp add: fpu_accurate_def exact_fpu_def)
  have e: "le_i32 example_payload 28 = 456471947"
    by (simp add: le_i32_def le_u32_def example_payload_nth)
  from nav_pvt_scaling [OF a, of example_payload] have
    "le_i32 example_payload 28 = 456471947
       \<longrightarrow> \<bar>latitude (parse_nav_pvt exact_fpu example_payload) - 456471947 / 10 ^ 7\<bar> \<le> 1 / 10 ^ 7"
    by (elim conjE)
  with a e show ?thesis by (intro conjI) (assumption, assumption, erule mp, assumption)
qed

subsection \<open>The frame search\<close>

lemma length_wire_body [simp]: "length (wire_body cls mid payload) = 4 + length payload"
  by (simp add: wire_body_def)

lemma length_wire_frame [simp]: "length (wire_frame cls mid payload) = 8 + length payload"
  by (simp add: wire_frame_def)

text \<open>The loop at a position past its guard.\<close>

lemma ubx_search_guard:
  "\<not> i + 8 < length buf \<Longrightarrow> ubx_search fp buf i = (buf, None)"
  by (subst ubx_search.simps) simp

lemma ubx_search_no_sync:
  "i + 8 < length buf \<Longrightarrow> \<not> (buf ! i = 0xB5 \<and> buf ! (i + 1) = 0x62) \<Longrightarrow>
   ubx_search fp buf i = ubx_search fp buf (i + 1)"
  by (subst ubx_search.simps) auto

text \<open>A frame header at position \<open>length pre\<close>, with any two bytes in the checksum position.\<close>

lemma ubx_search_at_frame:
  assumes n: "length payload < 65536"
    and buf: "buf = pre @ [0xB5, 0x62] @ wire_body cls mid payload @ [a, b] @ rest"
    and guard: "length pre + 8 < length buf"
  shows "ubx_search fp buf (length pre) =
           (if ubx_checksum (wire_body cls mid payload) \<noteq> (a, b)
            then ubx_search fp buf (length pre + 1)
            else if cls = 0x01 \<and> mid = 0x07 \<and> length payload = 92
            then (rest, Some (parse_nav_pvt fp (payload @ [a, b] @ rest)))
            else ubx_search fp rest 0)"
proof -
  let ?i = "length pre"
  let ?n = "length payload"
  have h0: "buf ! ?i = 0xB5" and h1: "buf ! (?i + 1) = 0x62"
    and h2: "buf ! (?i + 2) = cls" and h3: "buf ! (?i + 3) = mid"
    and h4: "buf ! (?i + 4) = of_nat ?n" and h5: "buf ! (?i + 5) = of_nat (?n div 256)"
    unfolding buf by (simp_all add: nth_append wire_body_def)
  have plen: "unat (ubx_u16 (buf ! (?i + 4)) (buf ! (?i + 5))) = ?n"
    unfolding h4 h5 by (rule ubx_u16_length [OF n])
  have len: "length buf = ?i + 8 + ?n + length rest"
    unfolding buf by simp
  have complete: "(length buf < ?i + (6 + ?n + 2)) = False"
    using len by simp
  have body: "take (4 + ?n) (drop (?i + 2) buf) = wire_body cls mid payload"
    unfolding buf by simp
  have cka: "buf ! (?i + 6 + ?n) = a" and ckb: "buf ! (?i + 7 + ?n) = b"
    unfolding buf by (simp_all add: nth_append)
  have d6: "drop (?i + 6) buf = payload @ [a, b] @ rest"
    unfolding buf by (simp add: wire_body_def)
  have "drop (length (pre @ [0xB5, 0x62] @ wire_body cls mid payload @ [a, b]))
          ((pre @ [0xB5, 0x62] @ wire_body cls mid payload @ [a, b]) @ rest) = rest"
    by (rule append_eq_conv_conj [THEN iffD1, THEN conjunct2, symmetric]) (rule refl)
  then have d8: "drop (?i + (6 + ?n + 2)) buf = rest"
    unfolding buf by (simp add: add.commute add.left_commute)
  obtain ca cb where ck: "ubx_checksum (wire_body cls mid payload) = (ca, cb)"
    by (cases "ubx_checksum (wire_body cls mid payload)")
  show ?thesis
    apply (subst ubx_search.simps)
    apply (simp only: guard if_True h0 h1 h2 h3 plen Let_def body cka ckb d6 d8 simp_thms ck
        prod.case complete if_False)
    apply auto
    done
qed


text \<open>The poll is a feed of the bytes read, or leaves the accumulator as it is.\<close>

lemma zed_rover_get_position_feed:
  "zed_rover_get_position fp len_ret1 len_ret2 data_ret acc =
     (if 0 < zed_rover_available len_ret1 \<and> 0 < zed_rover_available len_ret2
      then case data_ret of
             None \<Rightarrow> (acc, None)
           | Some dev \<Rightarrow>
               ubx_feed fp acc (map dev [0..<min (nat (zed_rover_available len_ret2)) 256])
      else (acc, None))"
  by (auto simp: zed_rover_get_position_def zed_rover_read_def Let_def ubx_feed_def min_def
      split: option.splits)

lemma checksum_zeros:
  "((\<lambda>(ck_a, ck_b). (ck_a, ck_b + ck_a)) ^^ n) (a, b) = (a, b + of_nat n * (a :: u8))"
  by (induction n arbitrary: b) (simp_all add: algebra_simps funpow_swap1)

lemma example_checksum:
  "ubx_checksum (wire_body 0x01 0x07 example_payload) = (0x74, 0xD1)"
  by (simp add: ubx_checksum_def wire_body_def example_payload_def checksum_zeros)

lemma ubx_search_short:
  "length buf < i + 100 \<Longrightarrow> snd (ubx_search fp buf i) = None"
proof (induction fp buf i rule: ubx_search.induct)
  case (1 fp buf i)
  show ?case
    apply (subst ubx_search.simps)
    using 1
    apply (auto simp: Let_def split: prod.splits)
    done
qed

lemma ubx_search_without_sync:
  "0xB5 \<notin> set buf \<Longrightarrow> ubx_search fp buf i = (buf, None)"
proof (induction fp buf i rule: ubx_search.induct)
  case (1 fp buf i)
  show ?case
  proof (cases "i + 8 < length buf")
    case True
    with 1(4) have ns: "\<not> (buf ! i = 0xB5 \<and> buf ! (i + 1) = 0x62)"
      by (metis add_lessD1 nth_mem)
    from 1(3) [OF True ns 1(4)] ubx_search_no_sync [OF True ns] show ?thesis by simp
  next
    case False
    then show ?thesis by (simp add: ubx_search_guard)
  qed
qed

text \<open>
  C4. When a call has appended its bytes, the accumulator holds more than 200 bytes and
  the search resolves no frame (it ends without a position and leaves every byte in
  place), the call ends with the accumulator empty, whatever the earlier calls left in it,
  and the calls that follow run from the empty accumulator.
\<close>

theorem anti_desync_clears:
  assumes "temp \<noteq> []"
    and "ubx_search fp (ubx_append acc temp) 0 = (ubx_append acc temp, None)"
    and "200 < length (ubx_append acc temp)"
  shows "ubx_feed fp acc temp = ([], None)
       \<and> ubx_feeds fp acc (temp # temps)
           = (fst (ubx_feeds fp [] temps), None # snd (ubx_feeds fp [] temps))"
  using assms by (simp add: ubx_feed_def split: prod.splits)

theorem anti_desync_clears_witness:
  "replicate 60 (0 :: u8) \<noteq> []
   \<and> ubx_search exact_fpu (ubx_append (replicate 150 0) (replicate 60 0)) 0
        = (ubx_append (replicate 150 0) (replicate 60 0), None)
   \<and> 200 < length (ubx_append (replicate 150 0) (replicate 60 (0 :: u8)))
   \<and> ubx_feed exact_fpu (replicate 150 0) (replicate 60 0) = ([], None)
   \<and> ubx_feeds exact_fpu (replicate 150 0) [replicate 60 0] = ([], [None])"
proof -
  have a: "ubx_append (replicate 150 0) (replicate 60 0) = replicate 150 0 @ replicate 60 (0 :: u8)"
    by (simp add: ubx_append_def)
  have s: "ubx_search exact_fpu (replicate 150 0 @ replicate 60 0) 0
             = (replicate 150 0 @ replicate 60 0, None)"
    by (rule ubx_search_without_sync) simp
  have n: "replicate 60 (0 :: u8) \<noteq> []" by simp
  have l: "200 < length (ubx_append (replicate 150 0) (replicate 60 (0 :: u8)))"
    unfolding a by simp
  from anti_desync_clears [OF n, of exact_fpu "replicate 150 0" "[]"] a s l
  show ?thesis by simp
qed

subsection \<open>Streams of frames\<close>

lemma parse_nav_pvt_append:
  "48 \<le> length p \<Longrightarrow> parse_nav_pvt fp (p @ q) = parse_nav_pvt fp p"
  by (simp add: parse_nav_pvt_def ubx_u32_def nth_append)

lemma ubx_search_incomplete:
  assumes n: "length payload < 65536"
    and buf: "buf @ rem = wire_frame cls mid payload @ follow"
    and lo: "8 < length buf" and hi: "length buf < 8 + length payload"
  shows "ubx_search fp buf 0 = (buf, None)"
proof -
  let ?F = "wire_frame cls mid payload"
  have "take (length buf) (buf @ rem) = take (length buf) (?F @ follow)"
    by (simp only: buf)
  then have b: "buf = take (length buf) ?F"
    using hi by simp
  have nth: "\<And>k. k < length buf \<Longrightarrow> buf ! k = ?F ! k"
    by (subst b) simp
  have k: "0 < length buf" "1 < length buf" "4 < length buf" "5 < length buf"
    using lo by linarith+
  have h0: "buf ! 0 = 0xB5" and h1: "buf ! (0 + 1) = 0x62"
    and h4: "buf ! (0 + 4) = of_nat (length payload)"
    and h5: "buf ! (0 + 5) = of_nat (length payload div 256)"
    using nth [OF k(1)] nth [OF k(2)] nth [OF k(3)] nth [OF k(4)]
    by (simp_all add: wire_frame_def wire_body_def)
  have plen: "unat (ubx_u16 (buf ! (0 + 4)) (buf ! (0 + 5))) = length payload"
    unfolding h4 h5 by (rule ubx_u16_length [OF n])
  have g: "0 + 8 < length buf" using lo by simp
  have inc: "length buf < 0 + (6 + length payload + 2)" using hi by simp
  show ?thesis
    apply (subst ubx_search.simps)
    apply (simp only: g if_True h0 h1 plen Let_def simp_thms inc)
    done
qed

lemma ubx_search_whole_frame:
  assumes n: "length payload < 65536"
  shows "ubx_search fp (wire_frame cls mid payload @ rest) 0 =
           (if 8 < length (wire_frame cls mid payload @ rest) then
              if cls = 0x01 \<and> mid = 0x07 \<and> length payload = 92
              then (rest, Some (parse_nav_pvt fp payload))
              else ubx_search fp rest 0
            else (wire_frame cls mid payload @ rest, None))"
proof (cases "8 < length (wire_frame cls mid payload @ rest)")
  case True
  obtain a b where ck: "ubx_checksum (wire_body cls mid payload) = (a, b)"
    by (cases "ubx_checksum (wire_body cls mid payload)")
  have buf: "wire_frame cls mid payload @ rest
               = [] @ [0xB5, 0x62] @ wire_body cls mid payload @ [a, b] @ rest"
    by (simp add: wire_frame_def ck)
  have g: "length ([] :: u8 list) + 8 < length (wire_frame cls mid payload @ rest)"
    using True by simp
  have p: "length payload = 92 \<Longrightarrow>
             parse_nav_pvt fp (payload @ [a, b] @ rest) = parse_nav_pvt fp payload"
    by (rule parse_nav_pvt_append) simp
  from ubx_search_at_frame [OF n buf g, of fp] ck True p show ?thesis
    by (auto simp del: length_append)
next
  case False
  then show ?thesis by (simp add: ubx_search_guard)
qed

lemma ubx_search_skip:
  "i \<le> j \<Longrightarrow> (\<And>k. i \<le> k \<Longrightarrow> k < j \<Longrightarrow> buf ! k \<noteq> 0xB5) \<Longrightarrow>
   ubx_search fp buf i = ubx_search fp buf j"
proof (induction "j - i" arbitrary: i)
  case 0
  then show ?case by simp
next
  case (Suc d)
  then have lt: "i < j" by simp
  show ?case
  proof (cases "i + 8 < length buf")
    case True
    have ns: "\<not> (buf ! i = 0xB5 \<and> buf ! (i + 1) = 0x62)"
      using Suc.prems(2) [of i] lt by simp
    have "ubx_search fp buf (i + 1) = ubx_search fp buf j"
    proof (rule Suc.hyps(1))
      show "d = j - (i + 1)" using Suc.hyps(2) by simp
      show "i + 1 \<le> j" using lt by simp
      show "\<And>k. i + 1 \<le> k \<Longrightarrow> k < j \<Longrightarrow> buf ! k \<noteq> 0xB5"
        using Suc.prems(2) by simp
    qed
    with ubx_search_no_sync [OF True ns, of fp] show ?thesis by simp
  next
    case False
    with lt have "\<not> j + 8 < length buf" by simp
    with False show ?thesis by (simp add: ubx_search_guard)
  qed
qed

lemma ubx_search_incomplete_at:
  assumes n: "length payload < 65536"
    and buf: "buf @ rem = pre @ wire_frame cls mid payload @ follow"
    and lo: "length pre + 8 < length buf" and hi: "length buf < length pre + 8 + length payload"
  shows "ubx_search fp buf (length pre) = (buf, None)"
proof -
  let ?F = "wire_frame cls mid payload"
  let ?i = "length pre"
  have "take (length buf) (buf @ rem) = take (length buf) (pre @ ?F @ follow)"
    by (simp only: buf)
  then have b: "buf = pre @ take (length buf - ?i) ?F"
    using hi lo by simp
  have nth: "\<And>k. k < length buf - ?i \<Longrightarrow> buf ! (?i + k) = ?F ! k"
    by (subst b) (simp add: nth_append)
  have k: "0 < length buf - ?i" "1 < length buf - ?i" "4 < length buf - ?i"
    "5 < length buf - ?i"
    using lo by linarith+
  have h0: "buf ! ?i = 0xB5" and h1: "buf ! (?i + 1) = 0x62"
    and h4: "buf ! (?i + 4) = of_nat (length payload)"
    and h5: "buf ! (?i + 5) = of_nat (length payload div 256)"
    using nth [OF k(1)] nth [OF k(2)] nth [OF k(3)] nth [OF k(4)]
    by (simp_all add: wire_frame_def wire_body_def)
  have plen: "unat (ubx_u16 (buf ! (?i + 4)) (buf ! (?i + 5))) = length payload"
    unfolding h4 h5 by (rule ubx_u16_length [OF n])
  have inc: "length buf < ?i + (6 + length payload + 2)" using hi by simp
  show ?thesis
    apply (subst ubx_search.simps)
    apply (simp only: lo if_True h0 h1 plen Let_def simp_thms inc)
    done
qed

lemma ubx_search_skip_prefix:
  assumes "0xB5 \<notin> set pre"
  shows "ubx_search fp (pre @ xs) 0 = ubx_search fp (pre @ xs) (length pre)"
proof (rule ubx_search_skip)
  fix k assume "k < length pre"
  then have "(pre @ xs) ! k \<in> set pre" by (simp add: nth_append)
  with assms show "(pre @ xs) ! k \<noteq> 0xB5" by metis
qed simp

lemma ubx_search_skip_inside:
  assumes "0xB5 \<notin> set ys"
  shows "ubx_search fp (pre @ x # ys @ rest) (length pre + 1)
           = ubx_search fp (pre @ x # ys @ rest) (length pre + 1 + length ys)"
proof (rule ubx_search_skip)
  fix k assume k: "length pre + 1 \<le> k" "k < length pre + 1 + length ys"
  then have lt: "k - length pre - 1 < length ys" by linarith
  from k have "(pre @ x # ys @ rest) ! k = (x # ys @ rest) ! (k - length pre)"
    by (simp add: nth_append)
  also have "\<dots> = (ys @ rest) ! (k - length pre - 1)"
    using k by (simp add: nth_Cons')
  also have "\<dots> = ys ! (k - length pre - 1)"
    using lt by (simp only: nth_append if_True)
  finally have "(pre @ x # ys @ rest) ! k = ys ! (k - length pre - 1)" .
  moreover have "ys ! (k - length pre - 1) \<in> set ys"
    using lt by (rule nth_mem)
  ultimately show "(pre @ x # ys @ rest) ! k \<noteq> 0xB5" using assms by metis
qed simp

lemma frame_at_drop:
  assumes "frame_at (drop m buf) j n"
  shows "frame_at buf (m + j) n"
proof -
  from assms have l: "j + 8 < length buf - m" by (simp add: frame_at_def)
  then have m: "m \<le> length buf" by simp
  have nth: "drop m buf ! k = buf ! (m + k)" for k
    using m by simp
  have dd: "drop (j + 2) (drop m buf) = drop (m + j + 2) buf"
    by (simp add: add.commute add.left_commute)
  from assms show ?thesis
    unfolding frame_at_def nth dd
    by (auto simp: add.assoc)
qed

text \<open>
  What a scan may return: the accumulator as it is and no position; or what follows a
  frame that the scan accepts, from its end or from further on; or what follows an
  accepted frame of class 1, id 7 and length 92, with the position decoded from it.
\<close>

lemma ubx_search_outcome:
  "ubx_search fp buf i = (r, p) \<Longrightarrow>
     (p = None \<and> r = buf) \<or>
     (\<exists>j n. i \<le> j \<and> frame_at buf j n \<and>
        ((p = None \<and> (\<exists>k. j + 8 + n \<le> k \<and> r = drop k buf)) \<or>
         (n = 92 \<and> buf ! (j + 2) = 0x01 \<and> buf ! (j + 3) = 0x07 \<and> r = drop (j + 100) buf
            \<and> p = Some (parse_nav_pvt fp (drop (j + 6) buf)))))"
proof (induction fp buf i arbitrary: r p rule: ubx_search.induct)
  case (1 fp buf i)
  let ?Q = "\<lambda>buf i r p. (p = None \<and> r = buf) \<or>
     (\<exists>j n. i \<le> j \<and> frame_at buf j n \<and>
        ((p = None \<and> (\<exists>k. j + 8 + n \<le> k \<and> r = drop k buf)) \<or>
         (n = 92 \<and> buf ! (j + 2) = 0x01 \<and> buf ! (j + 3) = 0x07 \<and> r = drop (j + 100) buf
            \<and> p = Some (parse_nav_pvt fp (drop (j + 6) buf)))))"
  have up: "?Q buf i r p" if "?Q buf (i + 1) r p"
    using that
  proof (elim disjE exE conjE)
    assume "p = None" "r = buf"
    then show ?thesis by simp
  next
    fix j n k
    assume "i + 1 \<le> j" "frame_at buf j n" "p = None" "j + 8 + n \<le> k" "r = drop k buf"
    then show ?thesis
      by (intro disjI2 exI [of _ j] exI [of _ n] conjI disjI1 exI [of _ k]) simp_all
  next
    fix j n
    assume "i + 1 \<le> j" "frame_at buf j n" "n = 92" "buf ! (j + 2) = 1" "buf ! (j + 3) = 7"
      "r = drop (j + 100) buf" "p = Some (parse_nav_pvt fp (drop (j + 6) buf))"
    then show ?thesis
      by (intro disjI2 exI [of _ j] exI [of _ n] conjI disjI2) simp_all
  qed
  show ?case
  proof (cases "i + 8 < length buf")
    case False
    with "1.prems" show ?thesis by (simp add: ubx_search_guard)
  next
    case guard: True
    show ?thesis
    proof (cases "buf ! i = 0xB5 \<and> buf ! (i + 1) = 0x62")
      case False
      have "ubx_search fp buf (i + 1) = (r, p)"
        using ubx_search_no_sync [OF guard False, of fp] "1.prems" by simp
      then have "?Q buf (i + 1) r p"
        by (rule "1.IH"(3) [OF guard False])
      then show ?thesis by (rule up)
    next
      case sync: True
      define n where "n = unat (ubx_u16 (buf ! (i + 4)) (buf ! (i + 5)))"
      obtain ck_a ck_b where ck: "ubx_checksum (take (4 + n) (drop (i + 2) buf)) = (ck_a, ck_b)"
        by (cases "ubx_checksum (take (4 + n) (drop (i + 2) buf))")
      have step: "ubx_search fp buf i =
          (if i + (6 + n + 2) > length buf then (buf, None)
           else if ck_a \<noteq> buf ! (i + 6 + n) \<or> ck_b \<noteq> buf ! (i + 7 + n)
           then ubx_search fp buf (i + 1)
           else if buf ! (i + 2) = 0x01 \<and> buf ! (i + 3) = 0x07 \<and> n = 92
           then (drop (i + (6 + n + 2)) buf, Some (parse_nav_pvt fp (drop (i + 6) buf)))
           else ubx_search fp (drop (i + (6 + n + 2)) buf) 0)"
        apply (subst ubx_search.simps)
        using guard sync ck
        apply (simp add: Let_def n_def)
        done
      show ?thesis
      proof (cases "i + (6 + n + 2) > length buf")
        case True
        with step "1.prems" show ?thesis by simp
      next
        case complete: False
        show ?thesis
        proof (cases "ck_a \<noteq> buf ! (i + 6 + n) \<or> ck_b \<noteq> buf ! (i + 7 + n)")
          case bad: True
          have "ubx_search fp buf i = ubx_search fp buf (i + 1)"
            using complete bad by (subst step) simp
          with "1.prems" have "ubx_search fp buf (i + 1) = (r, p)"
            by simp
          then have "?Q buf (i + 1) r p"
            by (rule "1.IH"(1) [OF guard sync refl refl refl refl complete [unfolded n_def]
                  ck [unfolded n_def, symmetric] bad [unfolded n_def]])
          then show ?thesis by (rule up)
        next
          case good: False
          have fr: "frame_at buf i n"
            using guard sync complete good ck by (simp add: frame_at_def n_def)
          show ?thesis
          proof (cases "buf ! (i + 2) = 0x01 \<and> buf ! (i + 3) = 0x07 \<and> n = 92")
            case True
            have "ubx_search fp buf i
                    = (drop (i + 100) buf, Some (parse_nav_pvt fp (drop (i + 6) buf)))"
              using complete good True by (subst step) simp
            with "1.prems"
            have "r = drop (i + 100) buf" "p = Some (parse_nav_pvt fp (drop (i + 6) buf))"
              by simp_all
            with fr True show ?thesis by blast
          next
            case other: False
            have "ubx_search fp buf i = ubx_search fp (drop (i + (6 + n + 2)) buf) 0"
              using complete good other by (subst step) auto
            with "1.prems" have s: "ubx_search fp (drop (i + (6 + n + 2)) buf) 0 = (r, p)"
              by simp
            have "?Q (drop (i + (6 + n + 2)) buf) 0 r p"
              using s
              by (rule "1.IH"(2) [OF guard sync refl refl refl refl complete [unfolded n_def]
                  ck [unfolded n_def, symmetric] good [unfolded n_def] other [unfolded n_def],
                  unfolded n_def [symmetric]])
            then show ?thesis
            proof (elim disjE exE conjE)
              assume "p = None" "r = drop (i + (6 + n + 2)) buf"
              with fr show ?thesis
                by (intro disjI2 exI [of _ i] exI [of _ n] conjI disjI1 exI [of _ "i + (6 + n + 2)"])
                   simp_all
            next
              fix j m k
              assume f: "frame_at (drop (i + (6 + n + 2)) buf) j m" and "p = None"
                and "j + 8 + m \<le> k" and "r = drop k (drop (i + (6 + n + 2)) buf)"
              then show ?thesis
                using frame_at_drop [OF f]
                by (intro disjI2 exI [of _ "i + (6 + n + 2) + j"] exI [of _ m] conjI disjI1
                      exI [of _ "k + (i + (6 + n + 2))"]) simp_all
            next
              fix j m
              assume f: "frame_at (drop (i + (6 + n + 2)) buf) j m" and m: "m = 92"
                and c: "drop (i + (6 + n + 2)) buf ! (j + 2) = 1"
                       "drop (i + (6 + n + 2)) buf ! (j + 3) = 7"
                and r: "r = drop (j + 100) (drop (i + (6 + n + 2)) buf)"
                and p: "p = Some (parse_nav_pvt fp (drop (j + 6) (drop (i + (6 + n + 2)) buf)))"
              from f have "j + 8 < length buf - (i + (6 + n + 2))" by (simp add: frame_at_def)
              then have le: "i + (6 + n + 2) \<le> length buf" by simp
              show ?thesis
                using frame_at_drop [OF f] m c r p le
                by (intro disjI2 exI [of _ "i + (6 + n + 2) + j"] exI [of _ m] conjI)
                   (simp_all add: add.commute add.left_commute add.assoc)
            qed
          qed
        qed
      qed
    qed
  qed
qed

text \<open>A frame with other bytes than its checksum in the checksum position is not accepted.\<close>

lemma frame_at_wire:
  assumes n: "length payload < 65536"
    and buf: "buf = pre @ [0xB5, 0x62] @ wire_body cls mid payload @ [a, b] @ rest"
    and f: "frame_at buf (length pre) m"
  shows "ubx_checksum (wire_body cls mid payload) = (a, b)"
proof -
  let ?i = "length pre"
  let ?n = "length payload"
  have h4: "buf ! (?i + 4) = of_nat ?n" and h5: "buf ! (?i + 5) = of_nat (?n div 256)"
    unfolding buf by (simp_all add: nth_append wire_body_def)
  have plen: "unat (ubx_u16 (buf ! (?i + 4)) (buf ! (?i + 5))) = ?n"
    unfolding h4 h5 by (rule ubx_u16_length [OF n])
  have body: "take (4 + ?n) (drop (?i + 2) buf) = wire_body cls mid payload"
    unfolding buf by simp
  have cka: "buf ! (?i + 6 + ?n) = a" and ckb: "buf ! (?i + 7 + ?n) = b"
    unfolding buf by (simp_all add: nth_append)
  from f have m: "m = ?n" by (simp add: frame_at_def plen)
  from f show ?thesis
    unfolding frame_at_def m by (simp only: body cka ckb)
qed

text \<open>The same for a call, which ends with the reset.\<close>

lemma ubx_feed_outcome:
  assumes "temp \<noteq> []" and "ubx_append acc temp = buf" and "ubx_feed fp acc temp = (r, p)"
  shows "(p = None \<and> r = (if 200 < length buf then [] else buf)) \<or>
     (\<exists>j n. frame_at buf j n \<and>
        ((p = None \<and> (\<exists>k. j + 8 + n \<le> k
             \<and> r = (if 200 < length (drop k buf) then [] else drop k buf))) \<or>
         (n = 92 \<and> buf ! (j + 2) = 0x01 \<and> buf ! (j + 3) = 0x07 \<and> r = drop (j + 100) buf
            \<and> p = Some (parse_nav_pvt fp (drop (j + 6) buf)))))"
proof -
  obtain r0 p0 where s: "ubx_search fp buf 0 = (r0, p0)"
    by (cases "ubx_search fp buf 0")
  have f: "(r, p) = (case p0 of Some pos \<Rightarrow> (r0, Some pos)
                       | None \<Rightarrow> (if 200 < length r0 then [] else r0, None))"
    using assms s by (simp add: ubx_feed_def split: option.splits)
  from ubx_search_outcome [OF s] show ?thesis
  proof (elim disjE exE conjE)
    assume "p0 = None" "r0 = buf"
    with f show ?thesis by simp
  next
    fix j n k
    assume "frame_at buf j n" "p0 = None" "j + 8 + n \<le> k" "r0 = drop k buf"
    with f show ?thesis
      by (intro disjI2 exI [of _ j] exI [of _ n] conjI disjI1 exI [of _ k]) simp_all
  next
    fix j n
    assume "frame_at buf j n" "n = 92" "buf ! (j + 2) = 1" "buf ! (j + 3) = 7"
      "r0 = drop (j + 100) buf" "p0 = Some (parse_nav_pvt fp (drop (j + 6) buf))"
    with f show ?thesis
      by (intro disjI2 exI [of _ j] exI [of _ n] conjI disjI2) simp_all
  qed
qed

lemma sat_checksum:
  "ubx_checksum (wire_body 0x01 0x35 (replicate 236 0)) = (0x22, 0xD3)"
  by (simp add: ubx_checksum_def wire_body_def checksum_zeros)

lemma bad_frames_no_sync:
  "0xB5 \<notin> set (tl bad_nav_frame)" "0xB5 \<notin> set (tl bad_sat_frame)"
  by (simp_all add: bad_nav_frame_def bad_sat_frame_def wire_body_def example_payload_def)

text \<open>
  C3, as the claim states it, fails when the call ends above 200 bytes. The read is the
  satellite-information frame with its first checksum byte changed, followed by the
  first 10 bytes of a well-formed target fix frame, 254 bytes in all. The scan rejects
  the frame and stops at the partial frame behind it; the call then empties the
  accumulator, the 10 bytes included. With the checksum intact the same read leaves
  those 10 bytes in place.
\<close>

theorem bad_checksum_reset_counterexample:
  "ubx_checksum (wire_body 0x01 0x35 (replicate 236 0)) = (0x22, 0xD3)
   \<and> bad_sat_frame = [0xB5, 0x62] @ wire_body 0x01 0x35 (replicate 236 0) @ [0x23, 0xD3]
   \<and> ubx_feed exact_fpu [] (bad_sat_frame @ take 10 (wire_frame 0x01 0x07 example_payload))
        = ([], None)
   \<and> ubx_feed exact_fpu []
         (wire_frame 0x01 0x35 (replicate 236 0) @ take 10 (wire_frame 0x01 0x07 example_payload))
        = (take 10 (wire_frame 0x01 0x07 example_payload), None)"
proof -
  define F2 where "F2 = wire_frame 0x01 0x07 example_payload"
  define buf where "buf = bad_sat_frame @ take 10 F2"
  have l2: "length F2 = 100" by (simp add: F2_def example_payload_def)
  have lb: "length bad_sat_frame = 244" by (simp add: bad_sat_frame_def)
  have n1: "length (replicate 236 (0 :: u8)) < 65536" by simp
  have n2: "length example_payload < 65536" by (simp add: example_payload_def)
  have badc: "bad_sat_frame = 0xB5 # tl bad_sat_frame" by (simp add: bad_sat_frame_def)
  have tlb: "length (tl bad_sat_frame) = 243" by (simp add: lb)
  have bufc: "buf = [] @ 0xB5 # tl bad_sat_frame @ take 10 F2"
    using badc by (simp add: buf_def)
  have buf': "buf = [] @ [0xB5, 0x62] @ wire_body 0x01 0x35 (replicate 236 0)
                        @ [0x23, 0xD3] @ take 10 F2"
    by (simp add: buf_def bad_sat_frame_def)
  have g: "length ([] :: u8 list) + 8 < length buf" by (simp add: buf_def lb l2)
  have "ubx_search exact_fpu buf 0 = ubx_search exact_fpu buf 1"
    using ubx_search_at_frame [OF n1 buf' g, of exact_fpu] sat_checksum by simp
  also have "\<dots> = ubx_search exact_fpu buf 244"
    using ubx_search_skip_inside [OF bad_frames_no_sync(2), of exact_fpu "[]" "0xB5" "take 10 F2"]
    unfolding bufc [symmetric] tlb by simp
  also have "\<dots> = ubx_search exact_fpu buf (length bad_sat_frame)"
    by (simp add: lb)
  also have "\<dots> = (buf, None)"
  proof (rule ubx_search_incomplete_at [OF n2])
    show "buf @ drop 10 F2 = bad_sat_frame @ wire_frame 0x01 0x07 example_payload @ []"
      by (simp add: buf_def F2_def)
  qed (simp_all add: buf_def lb l2 example_payload_def)
  finally have s: "ubx_search exact_fpu buf 0 = (buf, None)" .
  have a: "ubx_append [] buf = buf" by (simp add: ubx_append_def buf_def lb l2)
  have ne: "buf \<noteq> []" using g by auto
  have f: "ubx_feed exact_fpu [] buf = ([], None)"
    using ne by (simp add: ubx_feed_def a s) (simp add: buf_def lb l2)
  define good where "good = wire_frame 0x01 0x35 (replicate 236 0) @ take 10 F2"
  have lg: "length good = 254" by (simp add: good_def l2)
  have s10: "ubx_search exact_fpu (take 10 F2) 0 = (take 10 F2, None)"
  proof (rule ubx_search_incomplete [OF n2])
    show "take 10 F2 @ drop 10 F2 = wire_frame 0x01 0x07 example_payload @ []"
      by (simp add: F2_def)
  qed (simp_all add: l2 example_payload_def)
  have sg: "ubx_search exact_fpu good 0 = (take 10 F2, None)"
    using ubx_search_whole_frame [OF n1, of exact_fpu "0x01" "0x35" "take 10 F2"] s10
    by (simp add: good_def l2)
  have ag: "ubx_append [] good = good" by (simp add: ubx_append_def lg)
  have neg: "good \<noteq> []" using lg by auto
  have fg: "ubx_feed exact_fpu [] good = (take 10 F2, None)"
    using neg by (simp add: ubx_feed_def ag sg l2)
  show ?thesis
    using sat_checksum f fg
    by (simp add: buf_def good_def F2_def bad_sat_frame_def)
qed

text \<open>
  C3, amended. A frame in the accumulator that is well formed except that exactly one of
  its two checksum bytes is changed is rejected: the scan goes on from the byte after its
  sync marker, over the same accumulator. Whatever else the accumulator holds, a call on
  it ends in one of three ways, none of which takes the rejected frame for a frame. It
  returns no position and leaves the whole accumulator in place, unless that holds more
  than 200 bytes and the reset at the end of the call empties it. Or it returns no
  position and has removed the bytes up to the end of a frame that the scan accepts at
  another index, or further (the reset applying to what is left). Or it returns the
  position decoded from a frame of class 1, id 7 and length 92 that the scan accepts at
  another index, and leaves the bytes behind that frame. In particular, where no other
  byte in front of or inside the rejected frame is a sync byte: if no sync byte follows
  the frame either, the call returns no position and leaves the whole accumulator in
  place, reset apart; if a well-formed target fix frame follows it, the call returns the
  position of that frame and leaves what follows it.
\<close>

theorem bad_checksum_frame_rejected:
  assumes n: "length payload < 65536"
    and ck: "ubx_checksum (wire_body cls mid payload) = (ck_a, ck_b)"
    and flip: "(a \<noteq> ck_a \<and> b = ck_b) \<or> (a = ck_a \<and> b \<noteq> ck_b)"
    and bad: "bad = [0xB5, 0x62] @ wire_body cls mid payload @ [a, b]"
    and buf: "buf = pre @ bad @ rest"
  shows "ubx_search fp buf (length pre) = ubx_search fp buf (length pre + 1)
       \<and> (temp \<noteq> [] \<and> ubx_append acc temp = buf \<and> ubx_feed fp acc temp = (r, p)
            \<longrightarrow> (p = None \<and> r = (if 200 < length buf then [] else buf))
              \<or> (\<exists>j m. j \<noteq> length pre \<and> frame_at buf j m
                    \<and> ((p = None \<and> (\<exists>k. j + 8 + m \<le> k
                            \<and> r = (if 200 < length (drop k buf) then [] else drop k buf)))
                       \<or> (m = 92 \<and> buf ! (j + 2) = 0x01 \<and> buf ! (j + 3) = 0x07
                            \<and> r = drop (j + 100) buf
                            \<and> p = Some (parse_nav_pvt fp (drop (j + 6) buf))))))
       \<and> (temp \<noteq> [] \<and> ubx_append acc temp = buf \<and> 0xB5 \<notin> set (pre @ tl bad @ rest)
            \<longrightarrow> ubx_feed fp acc temp = (if 200 < length buf then [] else buf, None))
       \<and> (temp \<noteq> [] \<and> ubx_append acc temp = buf \<and> 0xB5 \<notin> set (pre @ tl bad)
              \<and> length fix_payload = 92 \<and> rest = wire_frame 0x01 0x07 fix_payload @ rest'
            \<longrightarrow> ubx_feed fp acc temp = (rest', Some (parse_nav_pvt fp fix_payload)))"
proof (intro conjI impI)
  have buf': "buf = pre @ [0xB5, 0x62] @ wire_body cls mid payload @ [a, b] @ rest"
    by (simp add: buf bad)
  have neq: "ubx_checksum (wire_body cls mid payload) \<noteq> (a, b)"
    using ck flip by auto
  show step: "ubx_search fp buf (length pre) = ubx_search fp buf (length pre + 1)"
  proof (cases "length pre + 8 < length buf")
    case True
    with ubx_search_at_frame [OF n buf' True, of fp] neq show ?thesis by simp
  next
    case False
    then show ?thesis by (simp add: ubx_search_guard)
  qed
  have nf: "j \<noteq> length pre" if "frame_at buf j m" for j m
    using frame_at_wire [OF n buf'] that neq by blast
  {
    assume h: "temp \<noteq> [] \<and> ubx_append acc temp = buf \<and> ubx_feed fp acc temp = (r, p)"
    then have h1: "temp \<noteq> []" and h2: "ubx_append acc temp = buf"
      and h3: "ubx_feed fp acc temp = (r, p)" by simp_all
    from ubx_feed_outcome [OF h1 h2 h3]
    show "(p = None \<and> r = (if 200 < length buf then [] else buf))
              \<or> (\<exists>j m. j \<noteq> length pre \<and> frame_at buf j m
                    \<and> ((p = None \<and> (\<exists>k. j + 8 + m \<le> k
                            \<and> r = (if 200 < length (drop k buf) then [] else drop k buf)))
                       \<or> (m = 92 \<and> buf ! (j + 2) = 0x01 \<and> buf ! (j + 3) = 0x07
                            \<and> r = drop (j + 100) buf
                            \<and> p = Some (parse_nav_pvt fp (drop (j + 6) buf)))))"
      using nf by blast
  }
  define ys where "ys = tl bad"
  have badc: "bad = 0xB5 # ys" by (simp add: ys_def bad)
  have bufc: "buf = pre @ 0xB5 # ys @ rest" by (simp add: buf badc)
  have lb: "length bad = 1 + length ys" by (simp add: badc)
  {
    assume h: "temp \<noteq> [] \<and> ubx_append acc temp = buf \<and> 0xB5 \<notin> set (pre @ tl bad @ rest)"
    then have np: "0xB5 \<notin> set pre" and ny: "0xB5 \<notin> set (ys @ rest)"
      by (simp_all add: ys_def)
    have "ubx_search fp buf 0 = ubx_search fp buf (length pre)"
      unfolding buf by (rule ubx_search_skip_prefix [OF np])
    also have "\<dots> = ubx_search fp buf (length pre + 1)" by (rule step)
    also have "\<dots> = ubx_search fp buf (length pre + 1 + length (ys @ rest))"
      using ubx_search_skip_inside [OF ny, of fp pre "0xB5" "[]"] by (simp add: bufc)
    also have "\<dots> = (buf, None)"
      by (rule ubx_search_guard) (simp add: bufc)
    finally have "ubx_search fp buf 0 = (buf, None)" .
    with h show "ubx_feed fp acc temp = (if 200 < length buf then [] else buf, None)"
      by (simp add: ubx_feed_def)
  }
  {
    assume h: "temp \<noteq> [] \<and> ubx_append acc temp = buf \<and> 0xB5 \<notin> set (pre @ tl bad)
              \<and> length fix_payload = 92 \<and> rest = wire_frame 0x01 0x07 fix_payload @ rest'"
    then have np: "0xB5 \<notin> set pre" and ny: "0xB5 \<notin> set ys"
      and l92: "length fix_payload = 92"
      and rest: "rest = wire_frame 0x01 0x07 fix_payload @ rest'"
      by (simp_all add: ys_def)
    obtain ca cb where fck: "ubx_checksum (wire_body 0x01 0x07 fix_payload) = (ca, cb)"
      by (cases "ubx_checksum (wire_body 0x01 0x07 fix_payload)")
    have n2: "length fix_payload < 65536" using l92 by simp
    have buf2: "buf = (pre @ bad) @ [0xB5, 0x62] @ wire_body 0x01 0x07 fix_payload
                        @ [ca, cb] @ rest'"
      by (simp add: buf rest wire_frame_def fck)
    have g2: "length (pre @ bad) + 8 < length buf"
      by (simp add: buf2 l92)
    have pp: "parse_nav_pvt fp (fix_payload @ [ca, cb] @ rest') = parse_nav_pvt fp fix_payload"
      using l92 by (simp add: parse_nav_pvt_def ubx_u32_def nth_append)
    have "ubx_search fp buf 0 = ubx_search fp buf (length pre)"
      unfolding buf by (rule ubx_search_skip_prefix [OF np])
    also have "\<dots> = ubx_search fp buf (length pre + 1)" by (rule step)
    also have "\<dots> = ubx_search fp buf (length (pre @ bad))"
      using ubx_search_skip_inside [OF ny, of fp pre "0xB5" rest] by (simp add: bufc lb)
    also have "\<dots> = (rest', Some (parse_nav_pvt fp fix_payload))"
      using ubx_search_at_frame [OF n2 buf2 g2, of fp] fck l92 pp by simp
    finally have "ubx_search fp buf 0 = (rest', Some (parse_nav_pvt fp fix_payload))" .
    with h show "ubx_feed fp acc temp = (rest', Some (parse_nav_pvt fp fix_payload))"
      by (simp add: ubx_feed_def)
  }
qed

theorem bad_checksum_frame_rejected_witness:
  "length example_payload < 65536
   \<and> ubx_checksum (wire_body 0x01 0x07 example_payload) = (0x74, 0xD1)
   \<and> bad_nav_frame = [0xB5, 0x62] @ wire_body 0x01 0x07 example_payload @ [0x75, 0xD1]
   \<and> 0xB5 \<notin> set (tl bad_nav_frame)
   \<and> ubx_search exact_fpu bad_nav_frame 0 = ubx_search exact_fpu bad_nav_frame 1
   \<and> ubx_feed exact_fpu [] bad_nav_frame = (bad_nav_frame, None)
   \<and> ubx_feed exact_fpu [] (bad_nav_frame @ wire_frame 0x01 0x07 example_payload)
        = ([], Some (parse_nav_pvt exact_fpu example_payload))"
proof -
  have l: "length example_payload < 65536"
    by (simp add: example_payload_def)
  have f: "((0x75 :: u8) \<noteq> 0x74 \<and> (0xD1 :: u8) = 0xD1) \<or> ((0x75 :: u8) = 0x74 \<and> (0xD1 :: u8) \<noteq> 0xD1)"
    by simp
  have lb: "length bad_nav_frame = 100"
    by (simp add: bad_nav_frame_def example_payload_def)
  have lp: "length example_payload = 92" by (simp add: example_payload_def)
  have b1: "bad_nav_frame = [] @ bad_nav_frame @ []" by simp
  have b2: "bad_nav_frame @ wire_frame 0x01 0x07 example_payload
              = [] @ bad_nav_frame @ wire_frame 0x01 0x07 example_payload" by simp
  have a1: "ubx_append [] bad_nav_frame = bad_nav_frame"
    by (simp add: ubx_append_def lb)
  have a2: "ubx_append [] (bad_nav_frame @ wire_frame 0x01 0x07 example_payload)
              = bad_nav_frame @ wire_frame 0x01 0x07 example_payload"
    by (simp add: ubx_append_def lb lp)
  have ne: "bad_nav_frame \<noteq> []" using lb by auto
  note t1 = bad_checksum_frame_rejected [OF l example_checksum f bad_nav_frame_def b1,
      where fp = exact_fpu and temp = bad_nav_frame and acc = "[]"]
  have w1: "ubx_search exact_fpu bad_nav_frame 0 = ubx_search exact_fpu bad_nav_frame 1"
    using t1 [THEN conjunct1] by simp
  have w2: "ubx_feed exact_fpu [] bad_nav_frame = (bad_nav_frame, None)"
    using t1 [THEN conjunct2, THEN conjunct2, THEN conjunct1] a1 ne bad_frames_no_sync(1) lb
    by simp
  note t2 = bad_checksum_frame_rejected [OF l example_checksum f bad_nav_frame_def b2,
      where fp = exact_fpu and temp = "bad_nav_frame @ wire_frame 0x01 0x07 example_payload"
        and acc = "[]" and fix_payload = example_payload and rest' = "[]"]
  have w3: "ubx_feed exact_fpu [] (bad_nav_frame @ wire_frame 0x01 0x07 example_payload)
              = ([], Some (parse_nav_pvt exact_fpu example_payload))"
    using t2 [THEN conjunct2, THEN conjunct2, THEN conjunct2] a2 ne bad_frames_no_sync(1) lp
    by simp
  show ?thesis
    using l example_checksum bad_nav_frame_def bad_frames_no_sync(1) w1 w2 w3 by simp
qed

lemma wire_stream_Cons: "wire_stream (m # ms) = wire_msg m @ wire_stream ms"
  by (simp add: wire_stream_def)

lemma wire_stream_append: "wire_stream (xs @ ys) = wire_stream xs @ wire_stream ys"
  by (simp add: wire_stream_def)

lemma length_wire_msg: "length (wire_msg m) = 8 + length (msg_payload m)"
  by (cases m) (simp add: wire_msg_def msg_payload_def)

lemma ubx_search_stream:
  assumes "well_formed ms" and "buf @ rem = wire_stream ms"
  shows "\<exists>consumed todo buf'.
           ms = consumed @ todo \<and> buf' @ rem = wire_stream todo \<and> length buf' \<le> length buf
           \<and> ((ubx_search fp buf 0 = (buf', None)
                 \<and> list_all (\<lambda>m. \<not> is_nav_pvt m) consumed
                 \<and> (todo \<noteq> [] \<longrightarrow> length buf' \<le> 8 \<or> length buf' < length (wire_msg (hd todo))))
               \<or> (\<exists>skipped t. consumed = skipped @ [t]
                     \<and> list_all (\<lambda>m. \<not> is_nav_pvt m) skipped \<and> is_nav_pvt t
                     \<and> ubx_search fp buf 0 = (buf', Some (parse_nav_pvt fp (msg_payload t)))))"
  using assms
proof (induction ms arbitrary: buf)
  case Nil
  then have "buf = []" "rem = []" by (simp_all add: wire_stream_def)
  then have "ubx_search fp buf 0 = ([], None)" by (simp add: ubx_search_guard)
  with \<open>buf = []\<close> \<open>rem = []\<close> show ?case
    by (intro exI [of _ "[]"]) (simp add: wire_stream_def)
next
  case (Cons m ms)
  obtain cls mid payload where m: "m = (cls, mid, payload)" by (cases m)
  let ?F = "wire_frame cls mid payload"
  have n: "length payload < 65536"
    using Cons.prems(1) by (simp add: well_formed_def m msg_payload_def)
  have wf: "well_formed ms" using Cons.prems(1) by (simp add: well_formed_def)
  have eq: "buf @ rem = ?F @ wire_stream ms"
    using Cons.prems(2) by (simp add: wire_stream_Cons m wire_msg_def)
  have wm: "wire_msg m = ?F" by (simp add: m wire_msg_def)
  show ?case
  proof (cases "length buf \<le> 8 \<or> length buf < length ?F")
    case True
    have "ubx_search fp buf 0 = (buf, None)"
    proof (cases "length buf \<le> 8")
      case True
      then show ?thesis by (simp add: ubx_search_guard)
    next
      case False
      with True have "8 < length buf" "length buf < 8 + length payload" by simp_all
      from ubx_search_incomplete [OF n eq this] show ?thesis .
    qed
    with True Cons.prems(2) show ?thesis
      by (intro exI [of _ "[]"] exI [of _ "m # ms"] exI [of _ buf]) (simp add: wm)
  next
    case False
    then have big: "8 < length buf" and whole: "length ?F \<le> length buf" by simp_all
    define rest where "rest = drop (length ?F) buf"
    have "take (length ?F) (buf @ rem) = take (length ?F) (?F @ wire_stream ms)"
      by (simp only: eq)
    then have tk: "take (length ?F) buf = ?F" using whole by simp
    have buf: "buf = ?F @ rest"
      unfolding rest_def using tk by (metis append_take_drop_id)
    have rest: "rest @ rem = wire_stream ms"
      using eq unfolding buf by simp
    have big': "8 < length (?F @ rest)" using big buf by simp
    have step: "ubx_search fp buf 0 =
           (if cls = 0x01 \<and> mid = 0x07 \<and> length payload = 92
            then (rest, Some (parse_nav_pvt fp payload)) else ubx_search fp rest 0)"
      using ubx_search_whole_frame [OF n, of fp cls mid rest] big' unfolding buf by simp
    have lr: "length rest \<le> length buf" by (simp add: rest_def)
    show ?thesis
    proof (cases "is_nav_pvt m")
      case True
      then have "ubx_search fp buf 0 = (rest, Some (parse_nav_pvt fp (msg_payload m)))"
        using step by (simp add: is_nav_pvt_def m msg_payload_def)
      with True rest lr show ?thesis
        by (intro exI [of _ "[m]"] exI [of _ ms] exI [of _ rest]) simp
    next
      case False
      then have "\<not> (cls = 0x01 \<and> mid = 0x07 \<and> length payload = 92)"
        by (simp add: is_nav_pvt_def m)
      with step have s: "ubx_search fp buf 0 = ubx_search fp rest 0"
        by (simp only: if_False)
      from Cons.IH [OF wf rest] obtain consumed todo buf' where
        ih: "ms = consumed @ todo" "buf' @ rem = wire_stream todo" "length buf' \<le> length rest"
          "(ubx_search fp rest 0 = (buf', None)
             \<and> list_all (\<lambda>m. \<not> is_nav_pvt m) consumed
             \<and> (todo \<noteq> [] \<longrightarrow> length buf' \<le> 8 \<or> length buf' < length (wire_msg (hd todo))))
           \<or> (\<exists>skipped t. consumed = skipped @ [t]
                 \<and> list_all (\<lambda>m. \<not> is_nav_pvt m) skipped \<and> is_nav_pvt t
                 \<and> ubx_search fp rest 0 = (buf', Some (parse_nav_pvt fp (msg_payload t))))"
        by blast
      from ih(4) show ?thesis
      proof
        assume a: "ubx_search fp rest 0 = (buf', None)
             \<and> list_all (\<lambda>m. \<not> is_nav_pvt m) consumed
             \<and> (todo \<noteq> [] \<longrightarrow> length buf' \<le> 8 \<or> length buf' < length (wire_msg (hd todo)))"
        with ih(1,2,3) lr s False show ?thesis
          by (intro exI [of _ "m # consumed"] exI [of _ todo] exI [of _ buf']) simp
      next
        assume "\<exists>skipped t. consumed = skipped @ [t]
                 \<and> list_all (\<lambda>m. \<not> is_nav_pvt m) skipped \<and> is_nav_pvt t
                 \<and> ubx_search fp rest 0 = (buf', Some (parse_nav_pvt fp (msg_payload t)))"
        then obtain skipped t where b: "consumed = skipped @ [t]"
          "list_all (\<lambda>m. \<not> is_nav_pvt m) skipped" "is_nav_pvt t"
          "ubx_search fp rest 0 = (buf', Some (parse_nav_pvt fp (msg_payload t)))"
          by blast
        have "\<exists>sk t'. m # consumed = sk @ [t'] \<and> list_all (\<lambda>m. \<not> is_nav_pvt m) sk \<and> is_nav_pvt t'
                \<and> ubx_search fp buf 0 = (buf', Some (parse_nav_pvt fp (msg_payload t')))"
          using b False s by (intro exI [of _ "m # skipped"] exI [of _ t]) simp
        with ih(1,2,3) lr show ?thesis
          by (intro exI [of _ "m # consumed"] exI [of _ todo] exI [of _ buf']) simp
      qed
    qed
  qed
qed

lemma ubx_append_small:
  "length acc + length temp \<le> 256 \<Longrightarrow> ubx_append acc temp = acc @ temp"
  by (auto simp: ubx_append_def Let_def)

lemma ubx_feed_empty: "ubx_feed fp acc [] = (acc, None)"
  by (simp add: ubx_feed_def)

lemma ubx_feed_small:
  assumes "temp \<noteq> []" and "length acc + length temp \<le> 200"
    and "ubx_search fp (acc @ temp) 0 = (buf, r)" and "length buf \<le> length (acc @ temp)"
  shows "ubx_feed fp acc temp = (buf, r)"
proof -
  have a: "ubx_append acc temp = acc @ temp"
    using assms(2) by (intro ubx_append_small) simp
  have "length buf \<le> 200" using assms(2,4) by simp
  then show ?thesis
    using assms(1,3) by (cases r) (simp_all add: ubx_feed_def a)
qed

lemma length_wire_stream_append_le:
  "length (wire_stream todo) \<le> length (wire_stream (consumed @ todo))"
  by (simp add: wire_stream_append)

lemma well_formed_append:
  "well_formed (xs @ ys) = (well_formed xs \<and> well_formed ys)"
  by (simp add: well_formed_def)

text \<open>Frames in front of the first target frame.\<close>

lemma consumed_before_target:
  assumes "list_all (\<lambda>m. \<not> is_nav_pvt m) consumed" and "is_nav_pvt t"
    and "consumed @ todo = pre @ t # post"
  shows "\<exists>pre'. pre = consumed @ pre' \<and> todo = pre' @ t # post"
  using assms
proof (induction consumed arbitrary: pre)
  case Nil
  then show ?case by simp
next
  case (Cons c cs)
  show ?case
  proof (cases pre)
    case Nil
    with Cons.prems show ?thesis by simp
  next
    case (Cons p ps)
    with Cons.prems Cons.IH [of ps] show ?thesis by simp
  qed
qed

lemma consumed_to_target:
  assumes "list_all (\<lambda>m. \<not> is_nav_pvt m) skipped" and "is_nav_pvt t'"
    and "list_all (\<lambda>m. \<not> is_nav_pvt m) pre" and "is_nav_pvt t"
    and "(skipped @ [t']) @ todo = pre @ t # post"
  shows "skipped = pre \<and> t' = t \<and> todo = post"
  using assms
proof (induction skipped arbitrary: pre)
  case Nil
  then show ?case by (cases pre) auto
next
  case (Cons c cs)
  show ?case
  proof (cases pre)
    case Nil
    with Cons.prems show ?thesis by simp
  next
    case (Cons p ps)
    with Cons.prems Cons.IH [of ps] show ?thesis by simp
  qed
qed

lemma ubx_feed_fits:
  assumes "temp \<noteq> []" and "length acc + length temp \<le> 256"
    and "ubx_search fp (acc @ temp) 0 = (buf, r)"
    and "temp = [] \<or> snd (ubx_search fp (acc @ temp) 0) \<noteq> None
           \<or> length (fst (ubx_search fp (acc @ temp) 0)) \<le> 200"
  shows "ubx_feed fp acc temp = (buf, r)"
proof -
  have a: "ubx_append acc temp = acc @ temp"
    using assms(2) by (rule ubx_append_small)
  show ?thesis
    using assms(1,3,4) by (cases r) (simp_all add: ubx_feed_def a)
qed

lemma length_ubx_search: "length (fst (ubx_search fp buf i)) \<le> length buf"
proof (induction fp buf i rule: ubx_search.induct)
  case (1 fp buf i)
  define n where "n = unat (ubx_u16 (buf ! (i + 4)) (buf ! (i + 5)))"
  have a: "length (fst (ubx_search fp buf (i + 1))) \<le> length buf"
    if "i + 8 < length buf" "\<not> (buf ! i = 0xB5 \<and> buf ! (i + 1) = 0x62)"
    using 1(3) that by simp
  have b: "length (fst (ubx_search fp buf (i + 1))) \<le> length buf"
    if "i + 8 < length buf" "buf ! i = 0xB5 \<and> buf ! (i + 1) = 0x62"
       "\<not> i + (6 + n + 2) > length buf"
       "ubx_checksum (take (4 + n) (drop (i + 2) buf)) = (ck_a, ck_b)"
       "ck_a \<noteq> buf ! (i + 6 + n) \<or> ck_b \<noteq> buf ! (i + 7 + n)" for ck_a ck_b
    using 1(1) [OF that(1,2) refl refl refl refl that(3) [unfolded n_def] that(4) [unfolded n_def, symmetric] that(5) [unfolded n_def]]
    by simp
  have c: "length (fst (ubx_search fp (drop (i + (6 + n + 2)) buf) 0)) \<le> length buf"
    if "i + 8 < length buf" "buf ! i = 0xB5 \<and> buf ! (i + 1) = 0x62"
       "\<not> i + (6 + n + 2) > length buf"
       "ubx_checksum (take (4 + n) (drop (i + 2) buf)) = (ck_a, ck_b)"
       "\<not> (ck_a \<noteq> buf ! (i + 6 + n) \<or> ck_b \<noteq> buf ! (i + 7 + n))"
       "\<not> (buf ! (i + 2) = 0x01 \<and> buf ! (i + 3) = 0x07 \<and> n = 92)" for ck_a ck_b
    using 1(2) [OF that(1,2) refl refl refl refl that(3) [unfolded n_def] that(4) [unfolded n_def, symmetric] that(5) [unfolded n_def] that(6) [unfolded n_def]]
    by (simp add: n_def)
  show ?case
    apply (subst ubx_search.simps)
    using a b c
    apply (auto simp: Let_def n_def split: prod.splits)
    done
qed

lemma length_ubx_feed: "length (fst (ubx_feed fp acc temp)) \<le> length acc + length temp"
proof -
  have "length (ubx_append acc temp) \<le> length acc + length temp"
    by (simp add: ubx_append_def Let_def)
  with length_ubx_search [of fp "ubx_append acc temp" 0] show ?thesis
    by (auto simp: ubx_feed_def split: prod.splits option.splits)
qed

text \<open>Reads that never bring the accumulator beyond 200 bytes fit.\<close>

lemma reads_fit_short:
  "length acc + length (concat temps) \<le> 200 \<Longrightarrow> reads_fit fp acc temps"
proof (induction temps arbitrary: acc)
  case Nil
  then show ?case by simp
next
  case (Cons temp temps)
  have "length (fst (ubx_search fp (acc @ temp) 0)) \<le> 200"
    using length_ubx_search [of fp "acc @ temp" 0] Cons.prems by simp
  moreover have "reads_fit fp (fst (ubx_feed fp acc temp)) temps"
    using length_ubx_feed [of fp acc temp] Cons.prems by (intro Cons.IH) simp
  ultimately show ?case using Cons.prems by simp
qed

lemma reads_fit_take: "reads_fit fp acc temps \<Longrightarrow> reads_fit fp acc (take k temps)"
proof (induction temps arbitrary: acc k)
  case Nil
  then show ?case by simp
next
  case (Cons temp temps)
  then show ?case by (cases k) simp_all
qed

lemma length_wire_stream_mem:
  "m \<in> set ms \<Longrightarrow> length (wire_msg m) \<le> length (wire_stream ms)"
  by (induction ms) (auto simp: wire_stream_Cons)

text \<open>
  Reads fit whenever every frame of the stream takes at most \<open>L\<close> bytes on the wire and
  every read brings at most \<open>200 - L\<close> bytes, however long the stream is.
\<close>

lemma reads_fit_bounded:
  assumes "well_formed ms" and "acc @ concat temps @ rem = wire_stream ms"
    and "list_all (\<lambda>m. length (wire_msg m) \<le> L) ms"
    and "list_all (\<lambda>temp. length temp + L \<le> 200) temps"
    and "length acc \<le> L"
  shows "reads_fit fp acc temps"
  using assms
proof (induction temps arbitrary: acc ms)
  case Nil
  then show ?case by simp
next
  case (Cons temp temps)
  have c: "length temp + L \<le> 200" and cs: "list_all (\<lambda>temp. length temp + L \<le> 200) temps"
    using Cons.prems(4) by simp_all
  have le200: "length acc + length temp \<le> 200" using c Cons.prems(5) by simp
  then have cap: "length acc + length temp \<le> 256" by simp
  have keep: "temp = [] \<or> snd (ubx_search fp (acc @ temp) 0) \<noteq> None
           \<or> length (fst (ubx_search fp (acc @ temp) 0)) \<le> 200"
    using length_ubx_search [of fp "acc @ temp" 0] le200 by simp
  have "reads_fit fp (fst (ubx_feed fp acc temp)) temps"
  proof (cases "temp = []")
    case True
    have "reads_fit fp acc temps"
      using Cons.prems(2) True
      by (intro Cons.IH [OF Cons.prems(1) _ Cons.prems(3) cs Cons.prems(5)]) simp
    with True show ?thesis by (simp add: ubx_feed_empty)
  next
    case False
    have eq: "(acc @ temp) @ (concat temps @ rem) = wire_stream ms"
      using Cons.prems(2) by simp
    from ubx_search_stream [OF Cons.prems(1) eq, of fp]
    obtain consumed todo buf' where
      st: "ms = consumed @ todo" "buf' @ (concat temps @ rem) = wire_stream todo"
        "length buf' \<le> length (acc @ temp)"
        "(ubx_search fp (acc @ temp) 0 = (buf', None)
             \<and> list_all (\<lambda>m. \<not> is_nav_pvt m) consumed
             \<and> (todo \<noteq> [] \<longrightarrow> length buf' \<le> 8 \<or> length buf' < length (wire_msg (hd todo))))
           \<or> (\<exists>skipped t. consumed = skipped @ [t]
                 \<and> list_all (\<lambda>m. \<not> is_nav_pvt m) skipped \<and> is_nav_pvt t
                 \<and> ubx_search fp (acc @ temp) 0 = (buf', Some (parse_nav_pvt fp (msg_payload t))))"
      by blast
    have wft: "well_formed todo" using Cons.prems(1) st(1) by (simp add: well_formed_append)
    have bt: "list_all (\<lambda>m. length (wire_msg m) \<le> L) todo" using Cons.prems(3) st(1) by simp
    have eq': "buf' @ concat temps @ rem = wire_stream todo" using st(2) by simp
    have all: "(acc @ temp) @ (concat temps @ rem)
                 = (wire_stream consumed @ buf') @ (concat temps @ rem)"
      using eq st(1,2) by (simp add: wire_stream_append)
    then have split: "acc @ temp = wire_stream consumed @ buf'" by (simp only: append_same_eq)
    from st(4) obtain r where s: "ubx_search fp (acc @ temp) 0 = (buf', r)" by blast
    have f: "ubx_feed fp acc temp = (buf', r)"
      by (rule ubx_feed_fits [OF False cap s keep])
    have "length buf' \<le> L"
      using st(4)
    proof
      assume a: "ubx_search fp (acc @ temp) 0 = (buf', None)
             \<and> list_all (\<lambda>m. \<not> is_nav_pvt m) consumed
             \<and> (todo \<noteq> [] \<longrightarrow> length buf' \<le> 8 \<or> length buf' < length (wire_msg (hd todo)))"
      show ?thesis
      proof (cases todo)
        case Nil
        with st(2) show ?thesis by (simp add: wire_stream_def)
      next
        case (Cons m ms')
        then have "length (wire_msg m) \<le> L" using bt by simp
        moreover have "8 \<le> length (wire_msg m)" by (simp add: length_wire_msg)
        ultimately show ?thesis using a Cons by auto
      qed
    next
      assume "\<exists>skipped t. consumed = skipped @ [t]
                 \<and> list_all (\<lambda>m. \<not> is_nav_pvt m) skipped \<and> is_nav_pvt t
                 \<and> ubx_search fp (acc @ temp) 0 = (buf', Some (parse_nav_pvt fp (msg_payload t)))"
      then obtain skipped t where b: "consumed = skipped @ [t]" "is_nav_pvt t" by blast
      have t100: "length (wire_msg t) = 100"
        using b(2) by (cases t) (simp add: is_nav_pvt_def wire_msg_def)
      have "length (wire_msg t) \<le> length (wire_stream consumed)"
        using b(1) by (intro length_wire_stream_mem) simp
      with split t100 have "100 + length buf' \<le> length acc + length temp"
        by (metis add_le_mono1 length_append)
      moreover have "100 \<le> L"
        using Cons.prems(3) st(1) b(1) t100 by simp
      ultimately show ?thesis using c Cons.prems(5) by simp
    qed
    with Cons.IH [OF wft eq' bt cs] f show ?thesis by simp
  qed
  with cap keep show ?case by simp
qed

lemma ubx_feeds_no_target:
  assumes "well_formed ms" and "list_all (\<lambda>m. \<not> is_nav_pvt m) ms"
    and "acc @ concat temps @ rem = wire_stream ms" and "reads_fit fp acc temps"
  shows "\<exists>acc' rs consumed todo. ubx_feeds fp acc temps = (acc', rs)
           \<and> filter (\<lambda>r. r \<noteq> None) rs = []
           \<and> ms = consumed @ todo \<and> acc' @ rem = wire_stream todo"
  using assms
proof (induction temps arbitrary: acc ms)
  case Nil
  then show ?case by (intro exI [of _ acc] exI [of _ "[]"] exI [of _ ms]) simp
next
  case (Cons temp temps)
  show ?case
  proof (cases "temp = []")
    case True
    have fit: "reads_fit fp acc temps"
      using Cons.prems(4) True by (simp add: ubx_feed_empty)
    from Cons.IH [OF Cons.prems(1,2) _ fit] Cons.prems(3) True
    obtain acc' rs consumed todo where
      "ubx_feeds fp acc temps = (acc', rs)" "filter (\<lambda>r. r \<noteq> None) rs = []"
      "ms = consumed @ todo" "acc' @ rem = wire_stream todo"
      by auto
    with True show ?thesis by (auto simp: ubx_feed_empty)
  next
    case False
    have eq: "(acc @ temp) @ (concat temps @ rem) = wire_stream ms"
      using Cons.prems(3) by simp
    have cap: "length acc + length temp \<le> 256"
      and keep: "temp = [] \<or> snd (ubx_search fp (acc @ temp) 0) \<noteq> None
           \<or> length (fst (ubx_search fp (acc @ temp) 0)) \<le> 200"
      and fit: "reads_fit fp (fst (ubx_feed fp acc temp)) temps"
      using Cons.prems(4) by simp_all
    from ubx_search_stream [OF Cons.prems(1) eq, of fp]
    obtain consumed todo buf' where
      st: "ms = consumed @ todo" "buf' @ (concat temps @ rem) = wire_stream todo"
        "length buf' \<le> length (acc @ temp)"
        "(ubx_search fp (acc @ temp) 0 = (buf', None)
             \<and> list_all (\<lambda>m. \<not> is_nav_pvt m) consumed
             \<and> (todo \<noteq> [] \<longrightarrow> length buf' \<le> 8 \<or> length buf' < length (wire_msg (hd todo))))
           \<or> (\<exists>skipped t. consumed = skipped @ [t]
                 \<and> list_all (\<lambda>m. \<not> is_nav_pvt m) skipped \<and> is_nav_pvt t
                 \<and> ubx_search fp (acc @ temp) 0 = (buf', Some (parse_nav_pvt fp (msg_payload t))))"
      by blast
    have "\<not> (\<exists>skipped t. consumed = skipped @ [t] \<and> is_nav_pvt t)"
      using Cons.prems(2) st(1) by auto
    with st(4) have s: "ubx_search fp (acc @ temp) 0 = (buf', None)" by blast
    have f: "ubx_feed fp acc temp = (buf', None)"
      by (rule ubx_feed_fits [OF False cap s keep])
    have wf: "well_formed todo" using Cons.prems(1) st(1) by (simp add: well_formed_append)
    have nt: "list_all (\<lambda>m. \<not> is_nav_pvt m) todo" using Cons.prems(2) st(1) by simp
    have fit': "reads_fit fp buf' temps" using fit f by simp
    have eq': "buf' @ concat temps @ rem = wire_stream todo" using st(2) by simp
    from Cons.IH [OF wf nt eq' fit']
    obtain acc' rs consumed' todo' where
      ih: "ubx_feeds fp buf' temps = (acc', rs)" "filter (\<lambda>r. r \<noteq> None) rs = []"
      "todo = consumed' @ todo'" "acc' @ rem = wire_stream todo'"
      by blast
    show ?thesis
      using f ih st(1)
      by (intro exI [of _ acc'] exI [of _ "None # rs"] exI [of _ "consumed @ consumed'"]
          exI [of _ todo']) simp
  qed
qed

lemma ubx_feeds_pending:
  assumes "well_formed (pre @ t # post)"
    and "list_all (\<lambda>m. \<not> is_nav_pvt m) pre" and "is_nav_pvt t"
    and "list_all (\<lambda>m. \<not> is_nav_pvt m) post"
    and "acc @ concat temps @ rem = wire_stream (pre @ t # post)"
    and "reads_fit fp acc temps"
    and "length acc \<le> 8 \<or> length acc < length (wire_msg (hd (pre @ [t])))"
  shows "\<exists>acc' rs consumed todo. ubx_feeds fp acc temps = (acc', rs)
           \<and> pre @ t # post = consumed @ todo \<and> acc' @ rem = wire_stream todo
           \<and> ((filter (\<lambda>r. r \<noteq> None) rs = []
                 \<and> (\<exists>pre'. todo = pre' @ t # post
                       \<and> (length acc' \<le> 8 \<or> length acc' < length (wire_msg (hd (pre' @ [t]))))))
               \<or> filter (\<lambda>r. r \<noteq> None) rs = [Some (parse_nav_pvt fp (msg_payload t))])"
  using assms
proof (induction temps arbitrary: acc pre)
  case Nil
  then show ?case
    by (intro exI [of _ acc] exI [of _ "[]"] exI [of _ "[]"] exI [of _ "pre @ t # post"]) simp
next
  case (Cons temp temps)
  let ?ms = "pre @ t # post"
  show ?case
  proof (cases "temp = []")
    case True
    have eq: "acc @ concat temps @ rem = wire_stream ?ms" using Cons.prems(5) True by simp
    have fit: "reads_fit fp acc temps"
      using Cons.prems(6) True by (simp add: ubx_feed_empty)
    from Cons.IH [OF Cons.prems(1,2,3,4) eq fit Cons.prems(7)]
    obtain acc' rs consumed todo where
      ih: "ubx_feeds fp acc temps = (acc', rs)" "?ms = consumed @ todo"
        "acc' @ rem = wire_stream todo"
        "(filter (\<lambda>r. r \<noteq> None) rs = []
                 \<and> (\<exists>pre'. todo = pre' @ t # post
                       \<and> (length acc' \<le> 8 \<or> length acc' < length (wire_msg (hd (pre' @ [t]))))))
               \<or> filter (\<lambda>r. r \<noteq> None) rs = [Some (parse_nav_pvt fp (msg_payload t))]"
      by blast
    show ?thesis
      using True ih
      by (intro exI [of _ acc'] exI [of _ "None # rs"] exI [of _ consumed] exI [of _ todo])
        (simp add: ubx_feed_empty)
  next
    case False
    have eq: "(acc @ temp) @ (concat temps @ rem) = wire_stream ?ms"
      using Cons.prems(5) by simp
    have cap: "length acc + length temp \<le> 256"
      and keep: "temp = [] \<or> snd (ubx_search fp (acc @ temp) 0) \<noteq> None
           \<or> length (fst (ubx_search fp (acc @ temp) 0)) \<le> 200"
      and fit: "reads_fit fp (fst (ubx_feed fp acc temp)) temps"
      using Cons.prems(6) by simp_all
    from ubx_search_stream [OF Cons.prems(1) eq, of fp]
    obtain consumed todo buf' where
      st: "?ms = consumed @ todo" "buf' @ (concat temps @ rem) = wire_stream todo"
        "length buf' \<le> length (acc @ temp)"
        "(ubx_search fp (acc @ temp) 0 = (buf', None)
             \<and> list_all (\<lambda>m. \<not> is_nav_pvt m) consumed
             \<and> (todo \<noteq> [] \<longrightarrow> length buf' \<le> 8 \<or> length buf' < length (wire_msg (hd todo))))
           \<or> (\<exists>skipped t'. consumed = skipped @ [t']
                 \<and> list_all (\<lambda>m. \<not> is_nav_pvt m) skipped \<and> is_nav_pvt t'
                 \<and> ubx_search fp (acc @ temp) 0 = (buf', Some (parse_nav_pvt fp (msg_payload t'))))"
      by blast
    have wft: "well_formed todo" using Cons.prems(1) st(1) by (simp add: well_formed_append)
    have eq': "buf' @ concat temps @ rem = wire_stream todo" using st(2) by simp
    from st(4) show ?thesis
    proof
      assume a: "ubx_search fp (acc @ temp) 0 = (buf', None)
             \<and> list_all (\<lambda>m. \<not> is_nav_pvt m) consumed
             \<and> (todo \<noteq> [] \<longrightarrow> length buf' \<le> 8 \<or> length buf' < length (wire_msg (hd todo)))"
      from consumed_before_target [OF _ Cons.prems(3) st(1) [symmetric]] a
      obtain pre' where p: "pre = consumed @ pre'" "todo = pre' @ t # post" by blast
      have f: "ubx_feed fp acc temp = (buf', None)"
        using a by (intro ubx_feed_fits [OF False cap _ keep]) simp
      have fit': "reads_fit fp buf' temps" using fit f by simp
      have hd: "hd todo = hd (pre' @ [t])" unfolding p(2) by (cases pre') simp_all
      have stuck: "length buf' \<le> 8 \<or> length buf' < length (wire_msg (hd (pre' @ [t])))"
        using a p(2) hd by simp
      have nt: "list_all (\<lambda>m. \<not> is_nav_pvt m) pre'" using Cons.prems(2) p(1) by simp
      from Cons.IH [OF wft [unfolded p(2)] nt Cons.prems(3,4) eq' [unfolded p(2)] fit' stuck]
      obtain acc' rs consumed' todo' where
        ih: "ubx_feeds fp buf' temps = (acc', rs)" "pre' @ t # post = consumed' @ todo'"
          "acc' @ rem = wire_stream todo'"
          "(filter (\<lambda>r. r \<noteq> None) rs = []
                 \<and> (\<exists>pre''. todo' = pre'' @ t # post
                       \<and> (length acc' \<le> 8 \<or> length acc' < length (wire_msg (hd (pre'' @ [t]))))))
               \<or> filter (\<lambda>r. r \<noteq> None) rs = [Some (parse_nav_pvt fp (msg_payload t))]"
        by blast
      have "?ms = (consumed @ consumed') @ todo'"
        using st(1) p(2) ih(2) by simp
      with f ih show ?thesis
        by (intro exI [of _ acc'] exI [of _ "None # rs"] exI [of _ "consumed @ consumed'"]
            exI [of _ todo']) simp
    next
      assume "\<exists>skipped t'. consumed = skipped @ [t']
                 \<and> list_all (\<lambda>m. \<not> is_nav_pvt m) skipped \<and> is_nav_pvt t'
                 \<and> ubx_search fp (acc @ temp) 0 = (buf', Some (parse_nav_pvt fp (msg_payload t')))"
      then obtain skipped t' where b: "consumed = skipped @ [t']"
        "list_all (\<lambda>m. \<not> is_nav_pvt m) skipped" "is_nav_pvt t'"
        "ubx_search fp (acc @ temp) 0 = (buf', Some (parse_nav_pvt fp (msg_payload t')))"
        by blast
      from consumed_to_target [OF b(2,3) Cons.prems(2,3) st(1) [symmetric, unfolded b(1)]]
      have c: "skipped = pre" "t' = t" "todo = post" by simp_all
      have f: "ubx_feed fp acc temp = (buf', Some (parse_nav_pvt fp (msg_payload t)))"
        using b(4) c(2) by (intro ubx_feed_fits [OF False cap _ keep]) simp
      have fit': "reads_fit fp buf' temps" using fit f by simp
      from ubx_feeds_no_target [OF wft [unfolded c(3)] Cons.prems(4) eq' [unfolded c(3)] fit']
      obtain acc' rs consumed' todo' where
        nt: "ubx_feeds fp buf' temps = (acc', rs)" "filter (\<lambda>r. r \<noteq> None) rs = []"
          "post = consumed' @ todo'" "acc' @ rem = wire_stream todo'"
        by blast
      have "?ms = (consumed @ consumed') @ todo'"
        using st(1) c(3) nt(3) by simp
      with f nt show ?thesis
        by (intro exI [of _ acc'] exI [of _ "Some (parse_nav_pvt fp (msg_payload t)) # rs"]
            exI [of _ "consumed @ consumed'"] exI [of _ todo']) simp
    qed
  qed
qed

lemma length_wire_stream_target:
  assumes "is_nav_pvt t"
  shows "100 \<le> length (wire_stream (pre @ t # post))
         \<and> length (wire_msg (hd (pre @ [t]))) \<le> length (wire_stream (pre @ t # post))"
proof -
  have t: "length (wire_msg t) = 100"
    using assms by (cases t) (simp add: is_nav_pvt_def wire_msg_def)
  show ?thesis
    by (cases pre) (simp_all add: wire_stream_append wire_stream_Cons t)
qed

lemma example_msgs:
  "well_formed [ack_msg, nav_msg]" "is_nav_pvt nav_msg" "\<not> is_nav_pvt ack_msg"
  "well_formed [sat_msg, nav_msg]" "\<not> is_nav_pvt sat_msg"
  "length (wire_stream [ack_msg, nav_msg]) = 110"
  by (simp_all add: well_formed_def is_nav_pvt_def ack_msg_def nav_msg_def sat_msg_def
      msg_payload_def example_payload_def wire_stream_def wire_msg_def)

text \<open>
  C1, as the claim states it, fails when the accumulator fills up. The stream is a
  well-formed 244-byte satellite-information frame followed by a well-formed target fix
  frame, read as 200 bytes and then 144 bytes. The first call keeps the 200 bytes of the
  partial frame. The second call can append only 56 bytes, up to the capacity of 256; it
  consumes the first frame and is left with the first 12 bytes of the target frame, whose
  other 88 bytes were dropped. No call returns the position.
\<close>

theorem split_stream_counterexample:
  "well_formed [sat_msg, nav_msg] \<and> \<not> is_nav_pvt sat_msg \<and> is_nav_pvt nav_msg
   \<and> two_frame_stream = wire_stream [sat_msg, nav_msg]
   \<and> concat [take 200 two_frame_stream, drop 200 two_frame_stream] = two_frame_stream
   \<and> ubx_feeds exact_fpu [] [take 200 two_frame_stream, drop 200 two_frame_stream]
        = ([0xB5, 0x62, 0x01, 0x07, 0x5C, 0x00, 0, 0, 0, 0, 0, 0], [None, None])"
proof -
  define F1 where "F1 = wire_frame 0x01 0x35 (replicate 236 0)"
  define F2 where "F2 = wire_frame 0x01 0x07 example_payload"
  have S: "two_frame_stream = F1 @ F2"
    by (simp add: two_frame_stream_def wire_stream_def wire_msg_def sat_msg_def nav_msg_def
        F1_def F2_def)
  have l1: "length F1 = 244" by (simp add: F1_def)
  have l2: "length F2 = 100" by (simp add: F2_def example_payload_def)
  have c1: "take 200 two_frame_stream = take 200 F1" by (simp add: S l1)
  have c2: "drop 200 two_frame_stream = drop 200 F1 @ F2" by (simp add: S l1)
  have n1: "length (replicate 236 (0 :: u8)) < 65536" by simp
  have n2: "length example_payload < 65536" by (simp add: example_payload_def)
  have s1: "ubx_search exact_fpu (take 200 F1) 0 = (take 200 F1, None)"
  proof (rule ubx_search_incomplete [OF n1])
    show "take 200 F1 @ drop 200 F1 = wire_frame 0x01 0x35 (replicate 236 0) @ []"
      by (simp add: F1_def)
  qed (simp_all add: l1)
  have f1: "ubx_feed exact_fpu [] (take 200 F1) = (take 200 F1, None)"
  proof (rule ubx_feed_small)
    show "take 200 F1 \<noteq> []" using l1 by auto
    show "ubx_search exact_fpu ([] @ take 200 F1) 0 = (take 200 F1, None)" using s1 by simp
  qed (simp_all add: l1)
  have a2: "ubx_append (take 200 F1) (drop 200 F1 @ F2) = F1 @ take 12 F2"
    by (simp add: ubx_append_def l1 l2)
  have r6: "replicate 6 (0 :: u8) = [0, 0, 0, 0, 0, 0]"
    by (simp add: eval_nat_numeral)
  have t12: "take 12 F2 = [0xB5, 0x62, 0x01, 0x07, 0x5C, 0x00, 0, 0, 0, 0, 0, 0]"
    by (simp add: F2_def wire_frame_def wire_body_def example_payload_def r6)
  have s3: "ubx_search exact_fpu (take 12 F2) 0 = (take 12 F2, None)"
  proof (rule ubx_search_incomplete [OF n2])
    show "take 12 F2 @ drop 12 F2 = wire_frame 0x01 0x07 example_payload @ []"
      by (simp add: F2_def)
  qed (simp_all add: l2 example_payload_def)
  have s2: "ubx_search exact_fpu (F1 @ take 12 F2) 0 = (take 12 F2, None)"
    using ubx_search_whole_frame [OF n1, of exact_fpu "0x01" "0x35" "take 12 F2"] s3
    by (simp add: F1_def [symmetric] l1 l2)
  have f2: "ubx_feed exact_fpu (take 200 F1) (drop 200 F1 @ F2) = (take 12 F2, None)"
    by (simp add: ubx_feed_def a2 s2 l1 l2)
  have run: "ubx_feeds exact_fpu [] [take 200 two_frame_stream, drop 200 two_frame_stream]
        = ([0xB5, 0x62, 0x01, 0x07, 0x5C, 0x00, 0, 0, 0, 0, 0, 0], [None, None])"
    by (simp add: c1 c2 f1 f2 t12)
  show ?thesis
    using example_msgs run by (simp add: two_frame_stream_def)
qed

text \<open>
  C1, amended. Take a wire stream of well-formed frames, exactly one of which is a target
  fix frame, and feed it to the empty accumulator in any number of reads split at any
  byte boundaries (empty reads included), such that the reads fit the accumulator: no
  read is cut short at the capacity of 256 bytes and no call without a position ends with
  more than 200 bytes (as is the case, for a stream of any length, when every frame takes
  at most \<open>L\<close> bytes and every read brings at most \<open>200 - L\<close> bytes, by
  \<open>reads_fit_bounded\<close>). Then exactly one call returns a position, and it is the decoded
  payload of the target frame. After any number of the calls, the accumulator followed by
  the bytes not yet fed is the wire stream of the frames not yet consumed: a partial
  frame at the end of the accumulator stays in place until more bytes arrive.
\<close>

theorem one_fix_decoded_once:
  assumes wf: "well_formed (pre @ t # post)"
    and tgt: "is_nav_pvt t"
    and others: "list_all (\<lambda>m. \<not> is_nav_pvt m) (pre @ post)"
    and chunks: "concat temps = wire_stream (pre @ t # post)"
    and fit: "reads_fit fp [] temps"
  shows "filter (\<lambda>r. r \<noteq> None) (snd (ubx_feeds fp [] temps))
           = [Some (parse_nav_pvt fp (msg_payload t))]
       \<and> (\<forall>k \<le> length temps. \<exists>consumed todo.
             pre @ t # post = consumed @ todo
             \<and> fst (ubx_feeds fp [] (take k temps)) @ concat (drop k temps) = wire_stream todo)"
proof
  have np: "list_all (\<lambda>m. \<not> is_nav_pvt m) pre" and nq: "list_all (\<lambda>m. \<not> is_nav_pvt m) post"
    using others by simp_all
  have eq: "[] @ concat temps @ [] = wire_stream (pre @ t # post)" using chunks by simp
  have stuck: "length ([] :: u8 list) \<le> 8 \<or> length ([] :: u8 list) < length (wire_msg (hd (pre @ [t])))"
    by simp
  from ubx_feeds_pending [OF wf np tgt nq eq fit stuck]
  obtain acc' rs todo where
    r: "ubx_feeds fp [] temps = (acc', rs)" "acc' @ [] = wire_stream todo"
      "(filter (\<lambda>r. r \<noteq> None) rs = []
          \<and> (\<exists>pre'. todo = pre' @ t # post
                \<and> (length acc' \<le> 8 \<or> length acc' < length (wire_msg (hd (pre' @ [t]))))))
       \<or> filter (\<lambda>r. r \<noteq> None) rs = [Some (parse_nav_pvt fp (msg_payload t))]"
    by blast
  have "\<not> (\<exists>pre'. todo = pre' @ t # post
                \<and> (length acc' \<le> 8 \<or> length acc' < length (wire_msg (hd (pre' @ [t])))))"
  proof
    assume "\<exists>pre'. todo = pre' @ t # post
                \<and> (length acc' \<le> 8 \<or> length acc' < length (wire_msg (hd (pre' @ [t]))))"
    then obtain pre' where p: "todo = pre' @ t # post"
      "length acc' \<le> 8 \<or> length acc' < length (wire_msg (hd (pre' @ [t])))" by blast
    from r(2) p(1) have "acc' = wire_stream (pre' @ t # post)" by simp
    with length_wire_stream_target [OF tgt, of pre' post] p(2) show False by simp
  qed
  with r(3) have "filter (\<lambda>r. r \<noteq> None) rs = [Some (parse_nav_pvt fp (msg_payload t))]"
    by blast
  with r(1) show "filter (\<lambda>r. r \<noteq> None) (snd (ubx_feeds fp [] temps))
           = [Some (parse_nav_pvt fp (msg_payload t))]" by simp
next
  have np: "list_all (\<lambda>m. \<not> is_nav_pvt m) pre" and nq: "list_all (\<lambda>m. \<not> is_nav_pvt m) post"
    using others by simp_all
  have stuck: "length ([] :: u8 list) \<le> 8 \<or> length ([] :: u8 list) < length (wire_msg (hd (pre @ [t])))"
    by simp
  show "\<forall>k \<le> length temps. \<exists>consumed todo.
             pre @ t # post = consumed @ todo
             \<and> fst (ubx_feeds fp [] (take k temps)) @ concat (drop k temps) = wire_stream todo"
  proof (intro allI impI)
    fix k
    have "concat (take k temps) @ concat (drop k temps) = concat temps"
      by (simp flip: concat_append)
    then have eq: "[] @ concat (take k temps) @ concat (drop k temps) = wire_stream (pre @ t # post)"
      using chunks by simp
    from ubx_feeds_pending [OF wf np tgt nq eq reads_fit_take [OF fit] stuck]
    obtain acc' rs consumed todo where
      "ubx_feeds fp [] (take k temps) = (acc', rs)" "pre @ t # post = consumed @ todo"
      "acc' @ concat (drop k temps) = wire_stream todo"
      by blast
    then show "\<exists>consumed todo.
             pre @ t # post = consumed @ todo
             \<and> fst (ubx_feeds fp [] (take k temps)) @ concat (drop k temps) = wire_stream todo"
      by auto
  qed
qed

text \<open>
  The stream of the counterexample, 344 bytes long, read as 100, 0, 144, 30 and 70 bytes:
  the reads fit, and the position is returned once.
\<close>

theorem one_fix_decoded_once_witness:
  "well_formed ([sat_msg] @ nav_msg # [])
   \<and> is_nav_pvt nav_msg
   \<and> list_all (\<lambda>m. \<not> is_nav_pvt m) ([sat_msg] @ [])
   \<and> concat [take 100 (wire_msg sat_msg), [], drop 100 (wire_msg sat_msg),
              take 30 (wire_msg nav_msg), drop 30 (wire_msg nav_msg)]
        = wire_stream ([sat_msg] @ nav_msg # [])
   \<and> reads_fit exact_fpu []
        [take 100 (wire_msg sat_msg), [], drop 100 (wire_msg sat_msg),
         take 30 (wire_msg nav_msg), drop 30 (wire_msg nav_msg)]
   \<and> filter (\<lambda>r. r \<noteq> None)
        (snd (ubx_feeds exact_fpu []
           [take 100 (wire_msg sat_msg), [], drop 100 (wire_msg sat_msg),
            take 30 (wire_msg nav_msg), drop 30 (wire_msg nav_msg)]))
        = [Some (parse_nav_pvt exact_fpu (msg_payload nav_msg))]"
proof -
  define F1 where "F1 = wire_frame 0x01 0x35 (replicate 236 0)"
  define F2 where "F2 = wire_frame 0x01 0x07 example_payload"
  have w1: "wire_msg sat_msg = F1" by (simp add: wire_msg_def sat_msg_def F1_def)
  have w2: "wire_msg nav_msg = F2" by (simp add: wire_msg_def nav_msg_def F2_def)
  have l1: "length F1 = 244" by (simp add: F1_def)
  have l2: "length F2 = 100" by (simp add: F2_def example_payload_def)
  have n1: "length (replicate 236 (0 :: u8)) < 65536" by simp
  have n2: "length example_payload < 65536" by (simp add: example_payload_def)
  have lp: "length example_payload = 92" by (simp add: example_payload_def)
  have s1: "ubx_search exact_fpu (take 100 F1) 0 = (take 100 F1, None)"
  proof (rule ubx_search_incomplete [OF n1])
    show "take 100 F1 @ drop 100 F1 = wire_frame 0x01 0x35 (replicate 236 0) @ []"
      by (simp add: F1_def)
  qed (simp_all add: l1)
  have f1: "ubx_feed exact_fpu [] (take 100 F1) = (take 100 F1, None)"
  proof (rule ubx_feed_small)
    show "take 100 F1 \<noteq> []" using l1 by auto
    show "ubx_search exact_fpu ([] @ take 100 F1) 0 = (take 100 F1, None)" using s1 by simp
  qed (simp_all add: l1)
  have s3: "ubx_search exact_fpu F1 0 = ([], None)"
    using ubx_search_whole_frame [OF n1, of exact_fpu "0x01" "0x35" "[]"]
    by (simp add: F1_def [symmetric] l1 ubx_search_guard)
  have a3: "ubx_append (take 100 F1) (drop 100 F1) = F1"
    by (simp add: ubx_append_def l1)
  have f3: "ubx_feed exact_fpu (take 100 F1) (drop 100 F1) = ([], None)"
    by (simp add: ubx_feed_def a3 s3 l1)
  have s4: "ubx_search exact_fpu (take 30 F2) 0 = (take 30 F2, None)"
  proof (rule ubx_search_incomplete [OF n2])
    show "take 30 F2 @ drop 30 F2 = wire_frame 0x01 0x07 example_payload @ []"
      by (simp add: F2_def)
  qed (simp_all add: l2 example_payload_def)
  have f4: "ubx_feed exact_fpu [] (take 30 F2) = (take 30 F2, None)"
  proof (rule ubx_feed_small)
    show "take 30 F2 \<noteq> []" using l2 by auto
    show "ubx_search exact_fpu ([] @ take 30 F2) 0 = (take 30 F2, None)" using s4 by simp
  qed (simp_all add: l2)
  have s5: "ubx_search exact_fpu F2 0 = ([], Some (parse_nav_pvt exact_fpu example_payload))"
    using ubx_search_whole_frame [OF n2, of exact_fpu "0x01" "0x07" "[]"] lp
    by (simp add: F2_def [symmetric] l2)
  have a5: "ubx_append (take 30 F2) (drop 30 F2) = F2"
    by (simp add: ubx_append_def l2)
  have f5: "ubx_feed exact_fpu (take 30 F2) (drop 30 F2)
              = ([], Some (parse_nav_pvt exact_fpu example_payload))"
    by (simp add: ubx_feed_def a5 s5 l2)
  have h1: "well_formed ([sat_msg] @ nav_msg # [])" using example_msgs by simp
  have h3: "list_all (\<lambda>m. \<not> is_nav_pvt m) ([sat_msg] @ [])" using example_msgs by simp
  have h4: "concat [take 100 (wire_msg sat_msg), [], drop 100 (wire_msg sat_msg),
                    take 30 (wire_msg nav_msg), drop 30 (wire_msg nav_msg)]
              = wire_stream ([sat_msg] @ nav_msg # [])"
    by (simp add: wire_stream_def)
  have h5: "reads_fit exact_fpu []
        [take 100 (wire_msg sat_msg), [], drop 100 (wire_msg sat_msg),
         take 30 (wire_msg nav_msg), drop 30 (wire_msg nav_msg)]"
    by (simp add: w1 w2 f1 ubx_feed_empty f3 f4 f5 s1 s3 s4 s5 l1 l2)
  from one_fix_decoded_once [OF h1 example_msgs(2) h3 h4 h5, THEN conjunct1]
    h1 example_msgs(2) h3 h4 h5
  show ?thesis by blast
qed

subsection \<open>Network selection\<close>








end
